theory Spec2Isabelle
  imports Main "HOL-Library.Word" "HOL-Library.Multiset"
begin

section \<open>Header keys: the canonical form used by the header methods\<close>

text \<open>
  The buffer of \<^verbatim>\<open>rwb.go\<close> works on Go's \<^verbatim>\<open>http.Header\<close>, a
  \<^verbatim>\<open>map[string][]string\<close>. The methods \<^verbatim>\<open>Del\<close>, \<^verbatim>\<open>Values\<close> and
  \<^verbatim>\<open>Add\<close> that \<^verbatim>\<open>Flush\<close> calls pass their key through
  \<^verbatim>\<open>textproto.CanonicalMIMEHeaderKey\<close> of the Go standard library; a plain index
  expression \<^verbatim>\<open>h[key]\<close> does not. The canonical form is transcribed here: a key that
  holds a byte outside the token alphabet is returned as it is, any other key gets an upper
  case letter at the start and after each dash and lower case letters elsewhere.
  Go strings are byte sequences, as \<^typ>\<open>string\<close> is.
\<close>

definition validHeaderFieldByte :: "char \<Rightarrow> bool" where
  "validHeaderFieldByte c =
     (let n = (of_char c :: nat) in
        (48 \<le> n \<and> n \<le> 57) \<or> (97 \<le> n \<and> n \<le> 122) \<or> (65 \<le> n \<and> n \<le> 90) \<or>
        n \<in> set [33, 35, 36, 37, 38, 39, 42, 43, 45, 46, 94, 95, 96, 124, 126])"

definition is_lower :: "char \<Rightarrow> bool" where
  "is_lower c = (97 \<le> (of_char c :: nat) \<and> (of_char c :: nat) \<le> 122)"

definition is_upper :: "char \<Rightarrow> bool" where
  "is_upper c = (65 \<le> (of_char c :: nat) \<and> (of_char c :: nat) \<le> 90)"

text \<open>\<^verbatim>\<open>toLower = 'a' - 'A'\<close>, that is 32; the arithmetic is on bytes.\<close>

definition toLower :: nat where
  "toLower = 32"

definition canon_byte :: "bool \<Rightarrow> char \<Rightarrow> char" where
  "canon_byte upper c =
     (if upper \<and> is_lower c then char_of ((of_char c :: nat) - toLower)
      else if \<not> upper \<and> is_upper c then char_of ((of_char c :: nat) + toLower)
      else c)"

fun canon_loop :: "bool \<Rightarrow> string \<Rightarrow> string" where
  "canon_loop upper [] = []"
| "canon_loop upper (c # cs) =
     (let c' = canon_byte upper c in c' # canon_loop (c' = CHR ''-'') cs)"

definition CanonicalMIMEHeaderKey :: "string \<Rightarrow> string" where
  "CanonicalMIMEHeaderKey s =
     (if list_all validHeaderFieldByte s then canon_loop True s else s)"

section \<open>The header map and its methods\<close>

text \<open>
  An \<^verbatim>\<open>http.Header\<close> maps a key to the sequence of its values. A key can be present
  with no value, which differs from an absent key for the index expression
  \<^verbatim>\<open>_, ok := h[key]\<close>. A nil map reads like the empty one.
\<close>

type_synonym http_Header = "string \<rightharpoonup> string list"

text \<open>\<^verbatim>\<open>h.Values(key)\<close> is \<^verbatim>\<open>h[CanonicalMIMEHeaderKey(key)]\<close>, nil when absent.\<close>

definition Values :: "http_Header \<Rightarrow> string \<Rightarrow> string list" where
  "Values h key = (case h (CanonicalMIMEHeaderKey key) of None \<Rightarrow> [] | Some vs \<Rightarrow> vs)"

text \<open>\<^verbatim>\<open>h.Del(key)\<close> is \<^verbatim>\<open>delete(h, CanonicalMIMEHeaderKey(key))\<close>.\<close>

definition Del :: "http_Header \<Rightarrow> string \<Rightarrow> http_Header" where
  "Del h key = h(CanonicalMIMEHeaderKey key := None)"

text \<open>
  \<^verbatim>\<open>h.Add(key, value)\<close> is
  \<^verbatim>\<open>key = CanonicalMIMEHeaderKey(key); h[key] = append(h[key], value)\<close>.
\<close>

definition Add :: "http_Header \<Rightarrow> string \<Rightarrow> string \<Rightarrow> http_Header" where
  "Add h key v =
     h(CanonicalMIMEHeaderKey key \<mapsto>
         (case h (CanonicalMIMEHeaderKey key) of None \<Rightarrow> [] | Some vs \<Rightarrow> vs) @ [v])"

text \<open>
  \<^verbatim>\<open>h.Clone()\<close> builds a new map with the same keys and copies every value sequence
  into fresh storage. Value sequences are immutable lists here, so the copy has the
  contents of the original; that it is a different object is the business of the store below.
\<close>

definition Clone :: "http_Header \<Rightarrow> http_Header" where
  "Clone h = h"

section \<open>The two loops of Flush\<close>

text \<open>
  Go leaves the order in which \<^verbatim>\<open>range\<close> visits the keys of a map unspecified, and it
  differs from run to run. The order is a parameter of each loop: a list of keys.
  \<open>range_order\<close> says that such a list visits every key of the map once.
\<close>

definition range_order :: "string list \<Rightarrow> http_Header \<Rightarrow> bool" where
  "range_order ks h = (distinct ks \<and> set ks = dom h)"

text \<open>
  \<^verbatim>\<open>for key := range actualHeader { if _, ok := rw.header[key]; !ok { actualHeader.Del(key) } }\<close>
  The map is modified while it is ranged over: an entry removed before it is reached is
  not produced, hence the first test.
\<close>

definition remove_step :: "http_Header \<Rightarrow> string \<Rightarrow> http_Header \<Rightarrow> http_Header" where
  "remove_step header key actualHeader =
     (if actualHeader key = None then actualHeader
      else if header key = None then Del actualHeader key
      else actualHeader)"

definition remove_deleted :: "string list \<Rightarrow> http_Header \<Rightarrow> http_Header \<Rightarrow> http_Header" where
  "remove_deleted ks header actualHeader = fold (remove_step header) ks actualHeader"

text \<open>
  \<^verbatim>\<open>found := false; for _, actualValue := range actualHeader.Values(key) {
     if actualValue == value { found = true; break } }\<close>
\<close>

fun found :: "string \<Rightarrow> string list \<Rightarrow> bool" where
  "found v [] = False"
| "found v (actualValue # rest) = (if actualValue = v then True else found v rest)"

text \<open>\<^verbatim>\<open>if found { continue }; actualHeader.Add(key, value)\<close>\<close>

definition copy_value :: "string \<Rightarrow> string \<Rightarrow> http_Header \<Rightarrow> http_Header" where
  "copy_value key v actualHeader =
     (if found v (Values actualHeader key) then actualHeader else Add actualHeader key v)"

text \<open>\<^verbatim>\<open>for _, value := range values { ... }\<close>\<close>

definition copy_values :: "string \<Rightarrow> string list \<Rightarrow> http_Header \<Rightarrow> http_Header" where
  "copy_values key vs actualHeader = fold (copy_value key) vs actualHeader"

text \<open>\<^verbatim>\<open>for key, values := range rw.header { ... }\<close>\<close>

definition copy_step :: "http_Header \<Rightarrow> string \<Rightarrow> http_Header \<Rightarrow> http_Header" where
  "copy_step header key actualHeader =
     (case header key of None \<Rightarrow> actualHeader | Some vs \<Rightarrow> copy_values key vs actualHeader)"

definition copy_new :: "string list \<Rightarrow> http_Header \<Rightarrow> http_Header \<Rightarrow> http_Header" where
  "copy_new ks header actualHeader = fold (copy_step header) ks actualHeader"

text \<open>Both loops in sequence: what Flush does to the header map of the sink.\<close>

definition reconcile ::
  "string list \<Rightarrow> string list \<Rightarrow> http_Header \<Rightarrow> http_Header \<Rightarrow> http_Header" where
  "reconcile ks1 ks2 header actualHeader =
     copy_new ks2 header (remove_deleted ks1 header actualHeader)"

section \<open>The sink, the buffer and the store\<close>

text \<open>
  Header maps are Go reference objects: \<^verbatim>\<open>Header()\<close> hands out the map itself, and
  whoever holds it can change it. They live in a store, addressed by references; fresh
  references are taken from a counter.

  The sink is the \<^verbatim>\<open>http.ResponseWriter\<close> that the buffer embeds. It is an interface,
  so all that is known of it is what the buffer does to it: the live header map it hands
  out, and the calls of \<^verbatim>\<open>WriteHeader\<close> and \<^verbatim>\<open>Write\<close> it has received, in order.
  What its \<^verbatim>\<open>Write\<close> returns is chosen by the environment and is a parameter of Flush.
\<close>

type_synonym byte = "8 word"

type_synonym ref = nat

datatype error = ErrBufferClosed | ErrOther string

datatype sink_call = SinkWriteHeader int | SinkWrite "byte list"

record World =
  heap :: "ref \<Rightarrow> http_Header"
  next_ref :: ref
  sink_header :: ref
  sink_calls :: "sink_call list"

record ResponseWriterBuffer =
  header :: ref
  body :: "byte list"
  statusCode :: int
  closed :: bool

text \<open>
  \<^verbatim>\<open>New\<close>: the clone of the sink's header map is a new object of the store.
\<close>

definition New :: "World \<Rightarrow> World \<times> ResponseWriterBuffer" where
  "New w =
     (let r = next_ref w in
        (w\<lparr>heap := (heap w)(r := Clone (heap w (sink_header w))), next_ref := Suc r\<rparr>,
         \<lparr>header = r, body = [], statusCode = 0, closed = False\<rparr>))"

text \<open>\<^verbatim>\<open>Header\<close> returns the buffer's own map, by reference.\<close>

definition Header :: "ResponseWriterBuffer \<Rightarrow> ref" where
  "Header rw = header rw"

text \<open>
  \<^verbatim>\<open>bytes.Buffer\<close>: \<^verbatim>\<open>Reset\<close> empties the buffer, \<^verbatim>\<open>Write\<close> appends and
  returns the length of what it was given and no error, \<^verbatim>\<open>Bytes\<close> is the content.
\<close>

definition buf_Reset :: "byte list \<Rightarrow> byte list" where
  "buf_Reset b = []"

definition buf_Write :: "byte list \<Rightarrow> byte list \<Rightarrow> (int \<times> error option) \<times> byte list" where
  "buf_Write p b = ((int (length p), None), b @ p)"

definition Write ::
  "byte list \<Rightarrow> ResponseWriterBuffer \<Rightarrow> (int \<times> error option) \<times> ResponseWriterBuffer" where
  "Write p rw =
     (if closed rw then ((0, Some ErrBufferClosed), rw)
      else (let (res, b) = buf_Write p (buf_Reset (body rw)) in (res, rw\<lparr>body := b\<rparr>)))"

definition WriteHeader :: "int \<Rightarrow> ResponseWriterBuffer \<Rightarrow> ResponseWriterBuffer" where
  "WriteHeader c rw = rw\<lparr>statusCode := c\<rparr>"

text \<open>The sink's side of \<^verbatim>\<open>WriteHeader\<close> and \<^verbatim>\<open>Write\<close>: the call is received.\<close>

definition sink_receive :: "sink_call \<Rightarrow> World \<Rightarrow> World" where
  "sink_receive c w = w\<lparr>sink_calls := sink_calls w @ [c]\<rparr>"

definition update_sink_header :: "(http_Header \<Rightarrow> http_Header) \<Rightarrow> World \<Rightarrow> World" where
  "update_sink_header f w = w\<lparr>heap := (heap w)(sink_header w := f (heap w (sink_header w)))\<rparr>"

text \<open>
  \<^verbatim>\<open>Flush\<close>. Here \<open>ks1\<close> and \<open>ks2\<close> are the orders of the two \<^verbatim>\<open>range\<close> loops and
  \<open>res\<close> is what the sink's \<^verbatim>\<open>Write\<close> returns. The buffer's map is read from the store
  at each loop.
\<close>

definition Flush ::
  "string list \<Rightarrow> string list \<Rightarrow> int \<times> error option \<Rightarrow> World \<times> ResponseWriterBuffer \<Rightarrow>
     (int \<times> error option) \<times> (World \<times> ResponseWriterBuffer)" where
  "Flush ks1 ks2 res s =
     (let (w, rw) = s in
      if closed rw then ((0, Some ErrBufferClosed), (w, rw))
      else
        (let w1 = update_sink_header (remove_deleted ks1 (heap w (header rw))) w;
             w2 = update_sink_header (copy_new ks2 (heap w1 (header rw))) w1;
             w3 = (if statusCode rw \<noteq> 0 then sink_receive (SinkWriteHeader (statusCode rw)) w2
                   else w2);
             w4 = sink_receive (SinkWrite (body rw)) w3
         in case res of
              (n, Some err) \<Rightarrow> ((0, Some err), (w4, rw))
            | (n, None) \<Rightarrow> ((n, None), (w4, rw\<lparr>closed := True\<rparr>))))"

section \<open>Sequences of operations\<close>

text \<open>
  What the code that holds the buffer and the sink can do, one operation at a time:
  change the map it got from \<^verbatim>\<open>Header()\<close> in any way, call \<^verbatim>\<open>Write\<close>,
  \<^verbatim>\<open>WriteHeader\<close> or \<^verbatim>\<open>Flush\<close>.
\<close>

datatype op =
    OpHeader "http_Header \<Rightarrow> http_Header"
  | OpWrite "byte list"
  | OpWriteHeader int
  | OpFlush "string list" "string list" "int \<times> error option"

fun step :: "op \<Rightarrow> World \<times> ResponseWriterBuffer \<Rightarrow> World \<times> ResponseWriterBuffer" where
  "step (OpHeader f) (w, rw) = (w\<lparr>heap := (heap w)(Header rw := f (heap w (Header rw)))\<rparr>, rw)"
| "step (OpWrite p) (w, rw) = (w, snd (Write p rw))"
| "step (OpWriteHeader c) (w, rw) = (w, WriteHeader c rw)"
| "step (OpFlush ks1 ks2 res) (w, rw) = snd (Flush ks1 ks2 res (w, rw))"

definition run :: "op list \<Rightarrow> World \<times> ResponseWriterBuffer \<Rightarrow> World \<times> ResponseWriterBuffer" where
  "run ops s = fold step ops s"

fun is_flush :: "op \<Rightarrow> bool" where
  "is_flush (OpFlush ks1 ks2 res) = True"
| "is_flush _ = False"

text \<open>What an observer of the sink sees: its live header map and the calls it received.\<close>

definition sink_view :: "World \<Rightarrow> http_Header \<times> sink_call list" where
  "sink_view w = (heap w (sink_header w), sink_calls w)"

text \<open>
  The store is well formed for a buffer when the sink's map and the buffer's map are
  allocated and are two objects. \<^verbatim>\<open>New\<close> is the only constructor of a buffer and the
  field is unexported, so every buffer of a program is of this kind.
\<close>

definition well_formed :: "World \<times> ResponseWriterBuffer \<Rightarrow> bool" where
  "well_formed s = (let (w, rw) = s in
     sink_header w < next_ref w \<and> header rw < next_ref w \<and> header rw \<noteq> sink_header w)"

section \<open>Notions used to state the properties\<close>

text \<open>The values stored under exactly this key, none when the key is absent.\<close>

definition vals :: "http_Header \<Rightarrow> string \<Rightarrow> string list" where
  "vals h k = (case h k of None \<Rightarrow> [] | Some vs \<Rightarrow> vs)"

text \<open>
  The entry of a key whose former entry was \<open>old\<close> and whose values are now \<open>l\<close>: a key
  that was absent and got no value stays absent.
\<close>

definition entry :: "string list option \<Rightarrow> string list \<Rightarrow> string list option" where
  "entry old l = (if old = None \<and> l = [] then None else Some l)"

text \<open>
  Appending to \<open>base\<close>, in order, each value of a list that is not yet there; and the
  values that the second loop offers to the entry of \<open>c\<close>, in the order of the loop.
\<close>

fun append_new :: "string list \<Rightarrow> string list \<Rightarrow> string list" where
  "append_new base [] = base"
| "append_new base (v # vs) = append_new (if v \<in> set base then base else base @ [v]) vs"

definition candidates :: "string list \<Rightarrow> http_Header \<Rightarrow> string \<Rightarrow> string list" where
  "candidates ks loc c =
     concat (map (\<lambda>k. if CanonicalMIMEHeaderKey k = c then vals loc k else []) ks)"

text \<open>
  A key that the first loop removes when it reaches it, and the keys that the first loop
  removes from the map in all: the canonical forms of those.
\<close>

definition doomed :: "http_Header \<Rightarrow> http_Header \<Rightarrow> string \<Rightarrow> bool" where
  "doomed loc h k = (h k \<noteq> None \<and> loc k = None)"

definition removed_keys :: "string list \<Rightarrow> http_Header \<Rightarrow> http_Header \<Rightarrow> string set" where
  "removed_keys ks loc h = set (map CanonicalMIMEHeaderKey (filter (doomed loc h) ks))"

text \<open>The status codes and the bodies among the calls that the sink has received.\<close>

fun status_codes :: "sink_call list \<Rightarrow> int list" where
  "status_codes [] = []"
| "status_codes (SinkWriteHeader c # cs) = c # status_codes cs"
| "status_codes (SinkWrite p # cs) = status_codes cs"

fun written_bodies :: "sink_call list \<Rightarrow> byte list list" where
  "written_bodies [] = []"
| "written_bodies (SinkWriteHeader c # cs) = written_bodies cs"
| "written_bodies (SinkWrite p # cs) = p # written_bodies cs"

text \<open>
  Concrete states for the examples. The sink's map is object 0 of the store and the
  buffer's map is object 1. In \<open>demo_world\<close> the sink holds X: a, b and Y: c, and the
  local map holds X: a.
\<close>

definition demo_world :: World where
  "demo_world =
     \<lparr>heap = (\<lambda>r. Map.empty)(0 := [''X'' \<mapsto> [''a'', ''b''], ''Y'' \<mapsto> [''c'']],
                                1 := [''X'' \<mapsto> [''a'']]),
      next_ref = 2, sink_header = 0, sink_calls = []\<rparr>"

definition demo_buffer :: ResponseWriterBuffer where
  "demo_buffer = \<lparr>header = 1, body = [104, 105], statusCode = 404, closed = False\<rparr>"

text \<open>
  In \<open>purge_world\<close> the sink holds X: a, b and the local map X: a. In \<open>merge_world\<close> the
  sink holds X: a, b and Y: c and the local map X: b, d, d. In \<open>variant_world\<close> the sink
  holds X: a and the local map x: b. In \<open>clash_world\<close> the sink holds nothing and the
  local map holds x-a: 1 and X-a: 2.
\<close>

definition purge_world :: World where
  "purge_world =
     \<lparr>heap = (\<lambda>r. Map.empty)(0 := [''X'' \<mapsto> [''a'', ''b'']], 1 := [''X'' \<mapsto> [''a'']]),
      next_ref = 2, sink_header = 0, sink_calls = []\<rparr>"

definition open_buffer :: ResponseWriterBuffer where
  "open_buffer = \<lparr>header = 1, body = [], statusCode = 0, closed = False\<rparr>"

definition merge_world :: World where
  "merge_world =
     \<lparr>heap = (\<lambda>r. Map.empty)(0 := [''X'' \<mapsto> [''a'', ''b''], ''Y'' \<mapsto> [''c'']],
                                1 := [''X'' \<mapsto> [''b'', ''d'', ''d'']]),
      next_ref = 2, sink_header = 0, sink_calls = []\<rparr>"

definition variant_world :: World where
  "variant_world =
     \<lparr>heap = (\<lambda>r. Map.empty)(0 := [''X'' \<mapsto> [''a'']], 1 := [''x'' \<mapsto> [''b'']]),
      next_ref = 2, sink_header = 0, sink_calls = []\<rparr>"

definition clash_world :: World where
  "clash_world =
     \<lparr>heap = (\<lambda>r. Map.empty)(1 := [''x-a'' \<mapsto> [''1''], ''X-a'' \<mapsto> [''2'']]),
      next_ref = 2, sink_header = 0, sink_calls = []\<rparr>"

text \<open>The header map that the sink of a state shows.\<close>

definition sink_map :: "World \<times> ResponseWriterBuffer \<Rightarrow> http_Header" where
  "sink_map s = heap (fst s) (sink_header (fst s))"

section \<open>The canonical form is idempotent\<close>

lemma oc_lt: "(of_char c :: nat) < 256"
  by (cases c) simp

lemma of_char_sub: "((of_char c :: nat) - 32) mod 256 = of_char c - 32"
proof -
  have "(of_char c :: nat) - 32 < 256" using oc_lt[of c] by arith
  then show ?thesis by simp
qed

lemma of_char_add: 
  assumes "is_upper c"
  shows "((of_char c :: nat) + 32) mod 256 = of_char c + 32"
proof -
  have "(of_char c :: nat) + 32 < 256" using assms by (simp add: is_upper_def)
  then show ?thesis by simp
qed

lemma canon_byte_cases:
  "canon_byte u c = c \<or>
   (u \<and> is_lower c \<and> (of_char (canon_byte u c) :: nat) = of_char c - 32) \<or>
   (\<not> u \<and> is_upper c \<and> (of_char (canon_byte u c) :: nat) = of_char c + 32)"
  by (simp add: canon_byte_def toLower_def of_char_sub of_char_add)

lemma canon_byte_valid:
  assumes "validHeaderFieldByte c"
  shows "validHeaderFieldByte (canon_byte u c)"
proof -
  consider "canon_byte u c = c"
    | "is_lower c" "(of_char (canon_byte u c) :: nat) = of_char c - 32"
    | "is_upper c" "(of_char (canon_byte u c) :: nat) = of_char c + 32"
    using canon_byte_cases[of u c] by blast
  then show ?thesis
  proof cases
    case 1
    then show ?thesis using assms by simp
  next
    case 2
    then have "65 \<le> (of_char (canon_byte u c) :: nat) \<and> (of_char (canon_byte u c) :: nat) \<le> 90"
      unfolding is_lower_def by arith
    then show ?thesis by (simp add: validHeaderFieldByte_def Let_def)
  next
    case 3
    then have "97 \<le> (of_char (canon_byte u c) :: nat) \<and> (of_char (canon_byte u c) :: nat) \<le> 122"
      unfolding is_upper_def by arith
    then show ?thesis by (simp add: validHeaderFieldByte_def Let_def)
  qed
qed

lemma canon_byte_idem: "canon_byte u (canon_byte u c) = canon_byte u c"
proof -
  consider "canon_byte u c = c"
    | "u" "is_lower c" "(of_char (canon_byte u c) :: nat) = of_char c - 32"
    | "\<not> u" "is_upper c" "(of_char (canon_byte u c) :: nat) = of_char c + 32"
    using canon_byte_cases[of u c] by blast
  then show ?thesis
  proof cases
    case 1
    then show ?thesis by simp
  next
    case 2
    then have "\<not> is_lower (canon_byte u c)"
      unfolding is_lower_def by arith
    with 2 show ?thesis by (subst canon_byte_def) simp
  next
    case 3
    then have "\<not> is_upper (canon_byte u c)"
      unfolding is_upper_def by arith
    with 3 show ?thesis by (subst canon_byte_def) simp
  qed
qed

lemma canon_loop_valid:
  "list_all validHeaderFieldByte s \<Longrightarrow> list_all validHeaderFieldByte (canon_loop u s)"
  by (induction s arbitrary: u) (simp_all add: Let_def canon_byte_valid)

lemma canon_loop_idem: "canon_loop u (canon_loop u s) = canon_loop u s"
  by (induction s arbitrary: u) (simp_all add: Let_def canon_byte_idem)

lemma canon_idem: "CanonicalMIMEHeaderKey (CanonicalMIMEHeaderKey s) = CanonicalMIMEHeaderKey s"
  by (simp add: CanonicalMIMEHeaderKey_def canon_loop_valid canon_loop_idem)


section \<open>The loops in closed form\<close>

lemma found_iff: "found v vs \<longleftrightarrow> v \<in> set vs"
  by (induction vs) simp_all

lemma entry_self: "entry (h k) (vals h k) = h k"
  by (cases "h k") (simp_all add: entry_def vals_def)

lemma vals_entry: "(case entry old l of None \<Rightarrow> [] | Some vs \<Rightarrow> vs) = l"
  by (simp add: entry_def)

lemma append_new_append: "append_new base (xs @ ys) = append_new (append_new base xs) ys"
  by (induction xs arbitrary: base) simp_all

lemma set_append_new: "set (append_new base vs) = set base \<union> set vs"
proof (induction vs arbitrary: base)
  case Nil
  show ?case by simp
next
  case (Cons v vs)
  show ?case by (cases "v \<in> set base") (simp_all add: Cons.IH, blast)
qed

lemma append_new_Nil_iff: "append_new base vs = [] \<longleftrightarrow> base = [] \<and> vs = []"
proof (induction vs arbitrary: base)
  case Nil
  show ?case by simp
next
  case (Cons v vs)
  show ?case by (cases "v \<in> set base") (simp_all add: Cons.IH, force)
qed

lemma append_new_subset: "set vs \<subseteq> set base \<Longrightarrow> append_new base vs = base"
proof (induction vs arbitrary: base)
  case Nil
  show ?case by simp
next
  case (Cons v vs)
  then have "v \<in> set base" "set vs \<subseteq> set base" by simp_all
  then show ?case using Cons.IH[of base] by simp
qed

lemma append_new_split:
  "\<exists>news. append_new base vs = base @ news \<and> distinct news \<and> set news = set vs - set base"
proof (induction vs arbitrary: base)
  case Nil
  show ?case by simp
next
  case (Cons v vs)
  show ?case
  proof (cases "v \<in> set base")
    case True
    obtain news where n: "append_new base vs = base @ news" "distinct news"
        "set news = set vs - set base"
      using Cons.IH[of base] by blast
    have "append_new base (v # vs) = base @ news" using True n(1) by simp
    moreover have "set news = set (v # vs) - set base" using True n(3) by auto
    ultimately show ?thesis using n(2) by blast
  next
    case False
    obtain news where n: "append_new (base @ [v]) vs = (base @ [v]) @ news" "distinct news"
        "set news = set vs - set (base @ [v])"
      using Cons.IH[of "base @ [v]"] by blast
    have "append_new base (v # vs) = base @ (v # news)" using False n(1) by simp
    moreover have "distinct (v # news)" using n(2,3) by auto
    moreover have "set (v # news) = set (v # vs) - set base" using False n(3) by auto
    ultimately show ?thesis by blast
  qed
qed

lemma entry_entry: "(l' = [] \<longrightarrow> l = []) \<Longrightarrow> entry (entry old l) l' = entry old l'"
  by (simp add: entry_def)

lemma entry_entry_append_new:
  "entry (entry old l) (append_new l vs) = entry old (append_new l vs)"
  by (rule entry_entry) (simp add: append_new_Nil_iff)

lemma copy_value_apply:
  "copy_value key v h c =
     (if c = CanonicalMIMEHeaderKey key then entry (h c) (append_new (vals h c) [v]) else h c)"
  by (cases "h (CanonicalMIMEHeaderKey key)")
     (simp_all add: copy_value_def Values_def Add_def found_iff vals_def entry_def)

lemma copy_values_apply:
  "copy_values key vs h c =
     (if c = CanonicalMIMEHeaderKey key then entry (h c) (append_new (vals h c) vs) else h c)"
proof (induction vs arbitrary: h)
  case Nil
  show ?case by (simp add: copy_values_def entry_self)
next
  case (Cons v vs)
  have unf: "copy_values key (v # vs) h = copy_values key vs (copy_value key v h)"
    by (simp add: copy_values_def)
  show ?case
  proof (cases "c = CanonicalMIMEHeaderKey key")
    case False
    then show ?thesis unfolding unf Cons.IH by (simp add: copy_value_apply)
  next
    case True
    have h': "copy_value key v h c = entry (h c) (append_new (vals h c) [v])"
      using True by (simp add: copy_value_apply)
    have v': "vals (copy_value key v h) c = append_new (vals h c) [v]"
      unfolding vals_def h' by (rule vals_entry)
    have "copy_values key (v # vs) h c =
        entry (entry (h c) (append_new (vals h c) [v])) (append_new (append_new (vals h c) [v]) vs)"
      unfolding unf Cons.IH if_P[OF True] v' h' by (rule refl)
    also have "\<dots> = entry (h c) (append_new (append_new (vals h c) [v]) vs)"
      by (rule entry_entry_append_new)
    also have "append_new (append_new (vals h c) [v]) vs = append_new (vals h c) (v # vs)"
      by simp
    finally show ?thesis unfolding if_P[OF True] .
  qed
qed


lemma copy_step_apply:
  "copy_step loc k h c =
     (if loc k \<noteq> None \<and> c = CanonicalMIMEHeaderKey k
      then entry (h c) (append_new (vals h c) (vals loc k)) else h c)"
  by (cases "loc k") (simp_all add: copy_step_def copy_values_apply vals_def)

lemma candidates_Cons:
  "candidates (k # ks) loc c =
     (if CanonicalMIMEHeaderKey k = c then vals loc k else []) @ candidates ks loc c"
  by (simp add: candidates_def)

lemma copy_new_apply:
  "copy_new ks loc h c = entry (h c) (append_new (vals h c) (candidates ks loc c))"
proof (induction ks arbitrary: h)
  case Nil
  show ?case by (simp add: copy_new_def candidates_def entry_self)
next
  case (Cons k ks)
  let ?h' = "copy_step loc k h"
  have unf: "copy_new (k # ks) loc h c = copy_new ks loc ?h' c"
    by (simp add: copy_new_def)
  show ?case
  proof (cases "CanonicalMIMEHeaderKey k = c")
    case False
    then have h': "?h' c = h c" by (auto simp: copy_step_apply)
    then have v': "vals ?h' c = vals h c" by (simp add: vals_def)
    show ?thesis unfolding unf Cons.IH candidates_Cons h' v' using False by simp
  next
    case True
    show ?thesis
    proof (cases "loc k")
      case None
      then have h': "?h' c = h c" by (simp add: copy_step_apply)
      then have v': "vals ?h' c = vals h c" by (simp add: vals_def)
      have "vals loc k = []" using None by (simp add: vals_def)
      then show ?thesis unfolding unf Cons.IH candidates_Cons h' v' by simp
    next
      case (Some vs)
      then have h': "?h' c = entry (h c) (append_new (vals h c) (vals loc k))"
        using True by (simp add: copy_step_apply)
      have v': "vals ?h' c = append_new (vals h c) (vals loc k)"
        unfolding vals_def[of ?h'] h' by (rule vals_entry)
      have "copy_new (k # ks) loc h c =
          entry (entry (h c) (append_new (vals h c) (vals loc k)))
            (append_new (append_new (vals h c) (vals loc k)) (candidates ks loc c))"
        unfolding unf Cons.IH h' v' by (rule refl)
      also have "\<dots> = entry (h c) (append_new (append_new (vals h c) (vals loc k)) (candidates ks loc c))"
        by (rule entry_entry_append_new)
      finally show ?thesis using True by (simp add: candidates_Cons append_new_append)
    qed
  qed
qed


lemma remove_step_apply:
  "remove_step loc k h = (if doomed loc h k then h(CanonicalMIMEHeaderKey k := None) else h)"
  by (simp add: remove_step_def Del_def doomed_def)

lemma removed_keys_snoc:
  "removed_keys (ks @ [k]) loc h =
     (if doomed loc h k then insert (CanonicalMIMEHeaderKey k) (removed_keys ks loc h)
      else removed_keys ks loc h)"
  by (simp add: removed_keys_def)

lemma removed_keys_canon:
  assumes "c \<in> removed_keys ks loc h"
  shows "CanonicalMIMEHeaderKey c = c"
proof -
  obtain k where "c = CanonicalMIMEHeaderKey k"
    using assms unfolding removed_keys_def by auto
  then show ?thesis by (simp add: canon_idem)
qed

lemma remove_deleted_apply:
  "remove_deleted ks loc h c = (if c \<in> removed_keys ks loc h then None else h c)"
proof (induction ks arbitrary: c rule: rev_induct)
  case Nil
  show ?case by (simp add: remove_deleted_def removed_keys_def)
next
  case (snoc k ks)
  let ?D = "removed_keys ks loc h"
  let ?g = "remove_deleted ks loc h"
  have unf: "remove_deleted (ks @ [k]) loc h = remove_step loc k ?g"
    by (simp add: remove_deleted_def)
  have g: "\<And>c. ?g c = (if c \<in> ?D then None else h c)" by (rule snoc.IH)
  show ?case
  proof (cases "doomed loc h k")
    case False
    then have "\<not> doomed loc ?g k" by (simp add: doomed_def g)
    then have "remove_step loc k ?g = ?g" by (simp add: remove_step_apply)
    then show ?thesis unfolding unf removed_keys_snoc if_not_P[OF False] by (simp only: g)
  next
    case True
    show ?thesis
    proof (cases "k \<in> ?D")
      case kD: True
      then have "CanonicalMIMEHeaderKey k = k" by (rule removed_keys_canon)
      then have eq: "insert (CanonicalMIMEHeaderKey k) ?D = ?D" using kD by (simp add: insert_absorb)
      have "?g k = None" using kD by (simp only: g if_True)
      then have "\<not> doomed loc ?g k" by (simp add: doomed_def)
      then have "remove_step loc k ?g = ?g" by (simp add: remove_step_apply)
      then show ?thesis unfolding unf removed_keys_snoc if_P[OF True] eq by (simp only: g)
    next
      case kD: False
      then have "?g k = h k" by (simp only: g if_False)
      then have "doomed loc ?g k" using True by (simp add: doomed_def)
      then have "remove_step loc k ?g = ?g(CanonicalMIMEHeaderKey k := None)"
        by (simp add: remove_step_apply)
      then show ?thesis unfolding unf removed_keys_snoc if_P[OF True] by (simp add: g)
    qed
  qed
qed

lemma removed_keys_range:
  assumes "range_order ks h"
  shows "removed_keys ks loc h = CanonicalMIMEHeaderKey ` (dom h - dom loc)"
proof -
  have "set (filter (doomed loc h) ks) = dom h - dom loc"
    using assms by (auto simp: range_order_def doomed_def)
  then show ?thesis unfolding removed_keys_def by simp
qed


lemma status_codes_append: "status_codes (xs @ ys) = status_codes xs @ status_codes ys"
  by (induction xs rule: status_codes.induct) simp_all

lemma written_bodies_append: "written_bodies (xs @ ys) = written_bodies xs @ written_bodies ys"
  by (induction xs rule: written_bodies.induct) simp_all

lemma Flush_closed:
  "closed rw \<Longrightarrow> Flush ks1 ks2 res (w, rw) = ((0, Some ErrBufferClosed), (w, rw))"
  by (simp add: Flush_def)

lemma Flush_open:
  assumes "\<not> closed rw"
  shows "Flush ks1 ks2 (n, e) (w, rw) =
     ((case e of None \<Rightarrow> n | Some err \<Rightarrow> 0, e),
      (w\<lparr>heap := (heap w)(sink_header w :=
             copy_new ks2 (((heap w)(sink_header w :=
                  remove_deleted ks1 (heap w (header rw)) (heap w (sink_header w)))) (header rw))
               (remove_deleted ks1 (heap w (header rw)) (heap w (sink_header w)))),
          sink_calls := sink_calls w @
             (if statusCode rw \<noteq> 0 then [SinkWriteHeader (statusCode rw)] else []) @
             [SinkWrite (body rw)]\<rparr>,
       rw\<lparr>closed := (e = None)\<rparr>))"
  using assms
  by (cases e) (simp_all add: Flush_def Let_def update_sink_header_def sink_receive_def)

lemma Flush_open_wf:
  assumes "\<not> closed rw" and "header rw \<noteq> sink_header w"
  shows "Flush ks1 ks2 (n, e) (w, rw) =
     ((case e of None \<Rightarrow> n | Some err \<Rightarrow> 0, e),
      (w\<lparr>heap := (heap w)(sink_header w :=
             reconcile ks1 ks2 (heap w (header rw)) (heap w (sink_header w))),
          sink_calls := sink_calls w @
             (if statusCode rw \<noteq> 0 then [SinkWriteHeader (statusCode rw)] else []) @
             [SinkWrite (body rw)]\<rparr>,
       rw\<lparr>closed := (e = None)\<rparr>))"
  unfolding Flush_open[OF assms(1)] using assms(2) by (simp add: reconcile_def)

lemma Write_open:
  "\<not> closed rw \<Longrightarrow> Write p rw = ((int (length p), None), rw\<lparr>body := p\<rparr>)"
  by (simp add: Write_def buf_Write_def buf_Reset_def)

lemma closed_step: "closed rw \<Longrightarrow> step x (w, rw) = (w', rw') \<Longrightarrow> closed rw'"
  by (cases x) (auto simp: Write_def WriteHeader_def Flush_closed)

lemma closed_run: "closed (snd s) \<Longrightarrow> closed (snd (run ops s))"
proof (induction ops arbitrary: s)
  case Nil
  then show ?case by (simp add: run_def)
next
  case (Cons x xs)
  obtain w rw where s: "s = (w, rw)" by (cases s)
  obtain w' rw' where s': "step x (w, rw) = (w', rw')" by (cases "step x (w, rw)")
  have "closed rw'" using Cons.prems s s' closed_step[of rw x w w' rw'] by simp
  then have "closed (snd (run xs (w', rw')))" using Cons.IH[of "(w', rw')"] by simp
  then show ?case by (simp add: run_def s s')
qed


section \<open>The closed buffer\<close>

text \<open>
  Claim C3. On a closed buffer, \<^verbatim>\<open>Write\<close> and \<^verbatim>\<open>Flush\<close> both return 0 and
  \<^verbatim>\<open>ErrBufferClosed\<close>, and leave the sink (its header map and the calls it has
  received) and the buffer as they were. The flag \<open>closed\<close> is set by a successful
  \<^verbatim>\<open>Flush\<close> only, so a closed buffer is one whose commit succeeded.
\<close>

theorem closed_buffer_rejects:
  assumes "closed rw"
  shows "Write p rw = ((0, Some ErrBufferClosed), rw) \<and>
         Flush ks1 ks2 res (w, rw) = ((0, Some ErrBufferClosed), (w, rw)) \<and>
         step (OpWrite p) (w, rw) = (w, rw) \<and>
         step (OpFlush ks1 ks2 res) (w, rw) = (w, rw)"
  using assms by (simp add: Write_def Flush_closed)

text \<open>The buffer closed by a successful \<^verbatim>\<open>Flush\<close> of the example rejects both calls.\<close>

theorem closed_buffer_rejects_witness:
  "closed (snd (snd (Flush [''X'', ''Y''] [''X''] (2, None) (demo_world, demo_buffer)))) \<and>
   Write [1, 2, 3] (snd (snd (Flush [''X'', ''Y''] [''X''] (2, None) (demo_world, demo_buffer)))) =
     ((0, Some ErrBufferClosed), snd (snd (Flush [''X'', ''Y''] [''X''] (2, None) (demo_world, demo_buffer)))) \<and>
   Flush [''X''] [''X''] (7, None) (snd (Flush [''X'', ''Y''] [''X''] (2, None) (demo_world, demo_buffer))) =
     ((0, Some ErrBufferClosed), snd (Flush [''X'', ''Y''] [''X''] (2, None) (demo_world, demo_buffer)))"
proof -
  have c: "closed (snd (snd (Flush [''X'', ''Y''] [''X''] (2, None) (demo_world, demo_buffer))))"
    by (simp add: Flush_def demo_buffer_def Let_def)
  show ?thesis
    using c closed_buffer_rejects[OF c, of "[1, 2, 3]" "[''X'']" "[''X'']" "(7, None)"
        "fst (snd (Flush [''X'', ''Y''] [''X''] (2, None) (demo_world, demo_buffer)))"]
    by simp
qed

section \<open>The body\<close>

text \<open>
  Claim C2. After \<^verbatim>\<open>Write(P1)\<close> and then \<^verbatim>\<open>Write(P2)\<close> on an open buffer, the
  second call reports the length of \<open>P2\<close>, the buffer holds \<open>P2\<close> alone, and the one
  body that \<^verbatim>\<open>Flush\<close> then hands to the sink's \<^verbatim>\<open>Write\<close> is \<open>P2\<close>.
\<close>

theorem last_write_wins:
  assumes "\<not> closed rw"
  shows "fst (Write P2 (snd (Write P1 rw))) = (int (length P2), None) \<and>
         body (snd (Write P2 (snd (Write P1 rw)))) = P2 \<and>
         written_bodies (sink_calls (fst (snd
             (Flush ks1 ks2 res (w, snd (Write P2 (snd (Write P1 rw)))))))) =
           written_bodies (sink_calls w) @ [P2]"
proof -
  have w1: "Write P1 rw = ((int (length P1), None), rw\<lparr>body := P1\<rparr>)"
    using assms by (rule Write_open)
  have w2: "Write P2 (rw\<lparr>body := P1\<rparr>) = ((int (length P2), None), rw\<lparr>body := P2\<rparr>)"
    using assms by (simp add: Write_open)
  obtain n e where res: "res = (n, e)" by (cases res)
  have "\<not> closed (rw\<lparr>body := P2\<rparr>)" using assms by simp
  then show ?thesis
    unfolding w1 w2 snd_conv fst_conv res
    by (simp add: Flush_open written_bodies_append)
qed

text \<open>Writing "hel" and then "wo" delivers "wo".\<close>

theorem last_write_wins_witness:
  "\<not> closed demo_buffer \<and>
   written_bodies (sink_calls (fst (snd (Flush [''X'', ''Y''] [''X''] (5, None)
       (demo_world, snd (Write [119, 111] (snd (Write [104, 101, 108] demo_buffer)))))))) =
     [[119, 111]]"
proof -
  have o: "\<not> closed demo_buffer" by (simp add: demo_buffer_def)
  show ?thesis
    using o last_write_wins[OF o, of "[119, 111]" "[104, 101, 108]" "[''X'', ''Y'']" "[''X'']"
        "(5, None)" demo_world]
    by (simp add: demo_world_def)
qed


section \<open>Flush: the error path, the status code, the success path\<close>

text \<open>
  Claim C4. When the sink's \<^verbatim>\<open>Write\<close> returns an error, \<^verbatim>\<open>Flush\<close> returns 0 and
  that very error, the buffer is left as it was and so stays open, and the sink keeps what
  the earlier steps did to it: its header map is the reconciled one, and it has received the
  status code (when one was set) and the body.
\<close>

theorem Flush_sink_error:
  assumes "\<not> closed rw" and "header rw \<noteq> sink_header w"
  shows "Flush ks1 ks2 (n, Some err) (w, rw) =
           ((0, Some err),
            (w\<lparr>heap := (heap w)(sink_header w :=
                   reconcile ks1 ks2 (heap w (header rw)) (heap w (sink_header w))),
                sink_calls := sink_calls w @
                   (if statusCode rw \<noteq> 0 then [SinkWriteHeader (statusCode rw)] else []) @
                   [SinkWrite (body rw)]\<rparr>,
             rw))"
  unfolding Flush_open_wf[OF assms] using assms(1) by simp

text \<open>
  In the example the local map has lost the key Y: after the failed \<^verbatim>\<open>Flush\<close> the
  sink has lost it too and has received status and body, and the buffer is still open.
\<close>

theorem Flush_sink_error_witness:
  "\<not> closed demo_buffer \<and> header demo_buffer \<noteq> sink_header demo_world \<and>
   fst (Flush [''X'', ''Y''] [''X''] (2, Some (ErrOther ''broken pipe''))
          (demo_world, demo_buffer)) =
     (0, Some (ErrOther ''broken pipe'')) \<and>
   \<not> closed (snd (snd (Flush [''X'', ''Y''] [''X''] (2, Some (ErrOther ''broken pipe''))
          (demo_world, demo_buffer)))) \<and>
   heap (fst (snd (Flush [''X'', ''Y''] [''X''] (2, Some (ErrOther ''broken pipe''))
          (demo_world, demo_buffer)))) 0 ''Y'' = None \<and>
   sink_calls (fst (snd (Flush [''X'', ''Y''] [''X''] (2, Some (ErrOther ''broken pipe''))
          (demo_world, demo_buffer)))) =
     [SinkWriteHeader 404, SinkWrite [104, 105]]"
proof -
  let ?w = "demo_world"
  have o: "\<not> closed demo_buffer" by (simp add: demo_buffer_def)
  have d: "header demo_buffer \<noteq> sink_header ?w" by (simp add: demo_buffer_def demo_world_def)
  have cx: "CanonicalMIMEHeaderKey ''X'' = ''X''" by code_simp
  have cy: "CanonicalMIMEHeaderKey ''Y'' = ''Y''" by code_simp
  have r: "reconcile [''X'', ''Y''] [''X''] (heap ?w (header demo_buffer)) (heap ?w (sink_header ?w)) ''Y'' = None"
    by (simp add: demo_buffer_def demo_world_def reconcile_def remove_deleted_def remove_step_def
        copy_new_def copy_step_def copy_values_def copy_value_def Values_def Del_def Add_def cx cy)
  show ?thesis
    using o d r Flush_sink_error[OF o d, of "[''X'', ''Y'']" "[''X'']" 2 "ErrOther ''broken pipe''"]
    by (simp add: demo_buffer_def demo_world_def)
qed

text \<open>
  Claim C7, as the code has it. \<^verbatim>\<open>Flush\<close> passes the stored status code to the sink's
  \<^verbatim>\<open>WriteHeader\<close> exactly when the buffer is open and the code is not 0: on a closed
  buffer it returns at its first test and passes nothing, whatever the stored code. The
  buffer's own \<^verbatim>\<open>WriteHeader\<close> stores the code and leaves the sink alone. This holds
  for every buffer.
\<close>

theorem status_applied_when_open:
  "status_codes (sink_calls (fst (snd (Flush ks1 ks2 res (w, rw))))) =
     status_codes (sink_calls w) @
       (if closed rw \<or> statusCode rw = 0 then [] else [statusCode rw]) \<and>
   statusCode (WriteHeader c rw) = c \<and>
   fst (step (OpWriteHeader c) (w, rw)) = w"
proof (cases "closed rw")
  case True
  then show ?thesis by (simp add: Flush_closed WriteHeader_def)
next
  case False
  obtain n e where res: "res = (n, e)" by (cases res)
  show ?thesis
    unfolding res Flush_open[OF False] using False
    by (simp add: status_codes_append WriteHeader_def)
qed

text \<open>
  The example buffer is open and holds 404, which reaches the sink; after
  \<^verbatim>\<open>WriteHeader(0)\<close> nothing does.
\<close>

theorem status_applied_when_open_witness:
  "status_codes (sink_calls (fst (snd (Flush [''X'', ''Y''] [''X''] (2, None)
       (demo_world, demo_buffer))))) = [404] \<and>
   status_codes (sink_calls (fst (snd (Flush [''X'', ''Y''] [''X''] (2, None)
       (demo_world, WriteHeader 0 demo_buffer))))) = []"
  using status_applied_when_open[of "[''X'', ''Y'']" "[''X'']" "(2, None)" demo_world demo_buffer 0]
    status_applied_when_open[of "[''X'', ''Y'']" "[''X'']" "(2, None)" demo_world
      "WriteHeader 0 demo_buffer" 0]
  by (simp add: demo_buffer_def demo_world_def WriteHeader_def)

text \<open>
  Claim C7 as it is stated, for every buffer, fails on a closed one. The example buffer is
  flushed with success, which passes its 404 to the sink and closes it. Then
  \<^verbatim>\<open>WriteHeader(500)\<close> stores 500, which is not 0, and a second \<^verbatim>\<open>Flush\<close> returns
  \<^verbatim>\<open>ErrBufferClosed\<close>: the sink has still received 404 only.
\<close>

theorem closed_status_counterexample:
  "closed (WriteHeader 500
      (snd (snd (Flush [''X'', ''Y''] [''X''] (2, None) (demo_world, demo_buffer))))) \<and>
   statusCode (WriteHeader 500
      (snd (snd (Flush [''X'', ''Y''] [''X''] (2, None) (demo_world, demo_buffer))))) = 500 \<and>
   fst (Flush [''X''] [''X''] (1, None)
      (fst (snd (Flush [''X'', ''Y''] [''X''] (2, None) (demo_world, demo_buffer))),
       WriteHeader 500
         (snd (snd (Flush [''X'', ''Y''] [''X''] (2, None) (demo_world, demo_buffer)))))) =
     (0, Some ErrBufferClosed) \<and>
   status_codes (sink_calls (fst (snd (Flush [''X''] [''X''] (1, None)
      (fst (snd (Flush [''X'', ''Y''] [''X''] (2, None) (demo_world, demo_buffer))),
       WriteHeader 500
         (snd (snd (Flush [''X'', ''Y''] [''X''] (2, None) (demo_world, demo_buffer))))))))) =
     [404]"
proof -
  have o: "\<not> closed demo_buffer" by (simp add: demo_buffer_def)
  obtain w1 rw1 where s1:
    "snd (Flush [''X'', ''Y''] [''X''] (2, None) (demo_world, demo_buffer)) = (w1, rw1)"
    by (cases "snd (Flush [''X'', ''Y''] [''X''] (2, None) (demo_world, demo_buffer))")
  have c1: "closed rw1" and k1: "sink_calls w1 = [SinkWriteHeader 404, SinkWrite [104, 105]]"
    using s1 unfolding Flush_open[OF o] by (auto simp: demo_buffer_def demo_world_def)
  have c2: "closed (WriteHeader 500 rw1)" using c1 by (simp add: WriteHeader_def)
  have st: "statusCode (WriteHeader 500 rw1) = 500" by (simp add: WriteHeader_def)
  show ?thesis unfolding s1 fst_conv snd_conv Flush_closed[OF c2] using c2 st k1 by simp
qed

text \<open>
  Claim C8. When the sink's \<^verbatim>\<open>Write\<close> returns \<open>n\<close> and no error, \<^verbatim>\<open>Flush\<close> on an
  open buffer returns \<open>n\<close> and no error and closes the buffer, and the buffer stays closed
  under every later sequence of operations.
\<close>

theorem Flush_success_closes:
  assumes "\<not> closed rw"
  shows "fst (Flush ks1 ks2 (n, None) (w, rw)) = (n, None) \<and>
         closed (snd (snd (Flush ks1 ks2 (n, None) (w, rw)))) \<and>
         closed (snd (run ops (snd (Flush ks1 ks2 (n, None) (w, rw)))))"
proof -
  have c: "closed (snd (snd (Flush ks1 ks2 (n, None) (w, rw))))"
    unfolding Flush_open[OF assms] by simp
  have r: "fst (Flush ks1 ks2 (n, None) (w, rw)) = (n, None)"
    unfolding Flush_open[OF assms] by simp
  show ?thesis using c r closed_run[OF c] by simp
qed

theorem Flush_success_closes_witness:
  "\<not> closed demo_buffer \<and>
   fst (Flush [''X'', ''Y''] [''X''] (2, None) (demo_world, demo_buffer)) = (2, None) \<and>
   closed (snd (run [OpWriteHeader 200, OpWrite [1], OpFlush [''X''] [''X''] (1, None), OpHeader (\<lambda>h. Map.empty)]
      (snd (Flush [''X'', ''Y''] [''X''] (2, None) (demo_world, demo_buffer)))))"
proof -
  have o: "\<not> closed demo_buffer" by (simp add: demo_buffer_def)
  show ?thesis
    using o Flush_success_closes[OF o, of "[''X'', ''Y'']" "[''X'']" 2 demo_world
        "[OpWriteHeader 200, OpWrite [1], OpFlush [''X''] [''X''] (1, None), OpHeader (\<lambda>h. Map.empty)]"]
    by simp
qed

text \<open>
  Claim C10. \<^verbatim>\<open>WriteHeader\<close> has no result and no test: on every buffer, open or
  closed, it replaces the stored status code and changes nothing else, neither in the buffer
  nor in the sink. In particular it does so on the buffer that a successful \<^verbatim>\<open>Flush\<close>
  has just closed.
\<close>

theorem WriteHeader_unconditional:
  "statusCode (WriteHeader c rw) = c \<and>
   header (WriteHeader c rw) = header rw \<and>
   body (WriteHeader c rw) = body rw \<and>
   closed (WriteHeader c rw) = closed rw \<and>
   step (OpWriteHeader c) (w, rw) = (w, rw\<lparr>statusCode := c\<rparr>) \<and>
   statusCode (snd (step (OpWriteHeader c) (snd (Flush ks1 ks2 (n, None) (w, rw))))) = c \<and>
   fst (step (OpWriteHeader c) (snd (Flush ks1 ks2 (n, None) (w, rw)))) =
     fst (snd (Flush ks1 ks2 (n, None) (w, rw)))"
proof -
  obtain w' rw' where f: "snd (Flush ks1 ks2 (n, None) (w, rw)) = (w', rw')"
    by (cases "snd (Flush ks1 ks2 (n, None) (w, rw))")
  show ?thesis unfolding f by (simp add: WriteHeader_def)
qed


section \<open>Without Flush the sink is not touched\<close>

lemma New_well_formed:
  "sink_header w < next_ref w \<Longrightarrow> well_formed (New w)"
  by (simp add: New_def well_formed_def Let_def)

lemma New_sink_view: "sink_header w < next_ref w \<Longrightarrow> sink_view (fst (New w)) = sink_view w"
  by (simp add: New_def sink_view_def Let_def)

lemma Write_header: "header (snd (Write p rw)) = header rw"
  by (cases "closed rw") (simp_all add: Write_def buf_Write_def buf_Reset_def)

lemma step_no_flush:
  assumes "well_formed (w, rw)" and "\<not> is_flush x" and "step x (w, rw) = (w', rw')"
  shows "well_formed (w', rw') \<and> sink_view w' = sink_view w"
proof (cases x)
  case (OpHeader f)
  then show ?thesis using assms by (auto simp: well_formed_def sink_view_def Header_def)
next
  case (OpWrite p)
  then show ?thesis using assms by (auto simp: well_formed_def Write_header)
next
  case (OpWriteHeader c)
  then show ?thesis using assms by (auto simp: well_formed_def WriteHeader_def)
next
  case (OpFlush ks1 ks2 res)
  then show ?thesis using assms by simp
qed

lemma run_no_flush:
  assumes "well_formed s" and "list_all (\<lambda>x. \<not> is_flush x) ops"
  shows "well_formed (run ops s) \<and> sink_view (fst (run ops s)) = sink_view (fst s)"
  using assms
proof (induction ops arbitrary: s)
  case Nil
  then show ?case by (simp add: run_def)
next
  case (Cons x xs)
  obtain w rw where s: "s = (w, rw)" by (cases s)
  obtain w' rw' where s': "step x (w, rw) = (w', rw')" by (cases "step x (w, rw)")
  have nf: "\<not> is_flush x" and rest: "list_all (\<lambda>x. \<not> is_flush x) xs"
    using Cons.prems(2) by simp_all
  have st: "well_formed (w', rw') \<and> sink_view w' = sink_view w"
    using Cons.prems(1) nf s' unfolding s by (rule step_no_flush)
  have "well_formed (run xs (w', rw')) \<and> sink_view (fst (run xs (w', rw'))) = sink_view w'"
    using Cons.IH[of "(w', rw')"] st rest by simp
  then show ?case using st by (simp add: run_def s s')
qed

text \<open>
  Claim C5. \<^verbatim>\<open>New\<close> leaves the sink as it is and gives the buffer a map of its own,
  with the contents of the sink's map, an empty body, no status code and \<open>closed\<close> false.
  After it, no sequence of changes to the map handed out by \<^verbatim>\<open>Header()\<close>, of
  \<^verbatim>\<open>Write\<close> and of \<^verbatim>\<open>WriteHeader\<close> changes what the sink shows: its header map and
  the calls it has received. The two maps stay two objects, so a change made to the sink's
  map is not seen in the buffer's either.
\<close>

theorem no_flush_leaves_sink:
  assumes "sink_header w < next_ref w" and "list_all (\<lambda>x. \<not> is_flush x) ops"
  shows "sink_view (fst (New w)) = sink_view w \<and>
         heap (fst (New w)) (Header (snd (New w))) = heap w (sink_header w) \<and>
         body (snd (New w)) = [] \<and> statusCode (snd (New w)) = 0 \<and> \<not> closed (snd (New w)) \<and>
         sink_view (fst (run ops (New w))) = sink_view w \<and>
         Header (snd (run ops (New w))) \<noteq> sink_header (fst (run ops (New w))) \<and>
         heap (update_sink_header f (fst (run ops (New w)))) (Header (snd (run ops (New w)))) =
           heap (fst (run ops (New w))) (Header (snd (run ops (New w))))"
proof -
  have wf0: "well_formed (New w)" using assms(1) by (rule New_well_formed)
  have v0: "sink_view (fst (New w)) = sink_view w" using assms(1) by (rule New_sink_view)
  have r: "well_formed (run ops (New w)) \<and> sink_view (fst (run ops (New w))) = sink_view (fst (New w))"
    using wf0 assms(2) by (rule run_no_flush)
  obtain w' rw' where s': "run ops (New w) = (w', rw')" by (cases "run ops (New w)")
  have ne: "header rw' \<noteq> sink_header w'" using r unfolding s' by (simp add: well_formed_def)
  have c: "heap (fst (New w)) (Header (snd (New w))) = heap w (sink_header w) \<and>
         body (snd (New w)) = [] \<and> statusCode (snd (New w)) = 0 \<and> \<not> closed (snd (New w))"
    by (simp add: New_def Header_def Clone_def Let_def)
  show ?thesis using v0 r c ne unfolding s' by (simp add: Header_def update_sink_header_def)
qed

text \<open>
  In the example the caller empties the local map, writes a body and sets a status: the
  sink still shows its two keys and has received no call.
\<close>

theorem no_flush_leaves_sink_witness:
  "sink_header demo_world < next_ref demo_world \<and>
   list_all (\<lambda>x. \<not> is_flush x) [OpHeader (\<lambda>h. Map.empty), OpWrite [104, 105], OpWriteHeader 500] \<and>
   sink_view (fst (run [OpHeader (\<lambda>h. Map.empty), OpWrite [104, 105], OpWriteHeader 500]
       (New demo_world))) =
     ([''X'' \<mapsto> [''a'', ''b''], ''Y'' \<mapsto> [''c'']], [])"
proof -
  have a: "sink_header demo_world < next_ref demo_world" by (simp add: demo_world_def)
  have b: "list_all (\<lambda>x. \<not> is_flush x) [OpHeader (\<lambda>h. Map.empty), OpWrite [104, 105], OpWriteHeader 500]"
    by simp
  have v: "sink_view demo_world = ([''X'' \<mapsto> [''a'', ''b''], ''Y'' \<mapsto> [''c'']], [])"
    by (simp add: demo_world_def sink_view_def)
  show ?thesis
    using a b no_flush_leaves_sink[OF a b] v by simp
qed


section \<open>The reconciliation in closed form\<close>

lemma vals_remove_deleted:
  "vals (remove_deleted ks loc h) c = (if c \<in> removed_keys ks loc h then [] else vals h c)"
  by (simp add: vals_def remove_deleted_apply)

lemma vals_copy_new:
  "vals (copy_new ks loc h) c = append_new (vals h c) (candidates ks loc c)"
  unfolding vals_def[of "copy_new ks loc h"] copy_new_apply by (rule vals_entry)

lemma reconcile_apply:
  "reconcile ks1 ks2 loc h c =
     entry (remove_deleted ks1 loc h c)
       (append_new (vals (remove_deleted ks1 loc h) c) (candidates ks2 loc c))"
  by (simp add: reconcile_def copy_new_apply)

lemma vals_reconcile:
  "vals (reconcile ks1 ks2 loc h) c =
     append_new (vals (remove_deleted ks1 loc h) c) (candidates ks2 loc c)"
  by (simp add: reconcile_def vals_copy_new)

lemma candidates_Nil: "candidates [] loc c = []"
  by (simp add: candidates_def)

lemma candidates_none:
  "\<forall>k \<in> set ks. CanonicalMIMEHeaderKey k \<noteq> c \<Longrightarrow> candidates ks loc c = []"
  by (induction ks) (simp_all add: candidates_Cons candidates_Nil)

lemma candidates_single:
  assumes "distinct ks" and "k0 \<in> set ks" and "CanonicalMIMEHeaderKey k0 = c"
    and "\<forall>k \<in> set ks. CanonicalMIMEHeaderKey k = c \<longrightarrow> k = k0"
  shows "candidates ks loc c = vals loc k0"
  using assms
proof (induction ks)
  case Nil
  then show ?case by simp
next
  case (Cons k ks)
  show ?case
  proof (cases "k = k0")
    case True
    have "k0 \<notin> set ks" using Cons.prems(1) True by simp
    then have "\<forall>k' \<in> set ks. CanonicalMIMEHeaderKey k' \<noteq> c"
      using Cons.prems(4) by auto
    then have "candidates ks loc c = []" by (rule candidates_none)
    then show ?thesis using True Cons.prems(3) by (simp add: candidates_Cons)
  next
    case False
    then have k0: "k0 \<in> set ks" using Cons.prems(2) by simp
    have nc: "CanonicalMIMEHeaderKey k \<noteq> c"
      using Cons.prems(4) False by auto
    have d: "distinct ks" using Cons.prems(1) by simp
    have u: "\<forall>k \<in> set ks. CanonicalMIMEHeaderKey k = c \<longrightarrow> k = k0"
      using Cons.prems(4) by simp
    have "candidates ks loc c = vals loc k0"
      using d k0 Cons.prems(3) u by (rule Cons.IH)
    then show ?thesis using nc by (simp add: candidates_Cons)
  qed
qed


lemma set_candidates:
  "set (candidates ks loc c) =
     (\<Union>k \<in> {k \<in> set ks. CanonicalMIMEHeaderKey k = c}. set (vals loc k))"
proof (induction ks)
  case Nil
  show ?case by (simp add: candidates_Nil)
next
  case (Cons k ks)
  have "{k' \<in> set (k # ks). CanonicalMIMEHeaderKey k' = c} =
      (if CanonicalMIMEHeaderKey k = c then {k} else {}) \<union> {k' \<in> set ks. CanonicalMIMEHeaderKey k' = c}"
    by auto
  then show ?case by (simp add: candidates_Cons Cons.IH)
qed

lemma candidates_order:
  assumes "range_order ks loc" and "range_order ks' loc"
    and "inj_on CanonicalMIMEHeaderKey (dom loc)"
  shows "candidates ks loc c = candidates ks' loc c"
proof (cases "\<exists>k0 \<in> dom loc. CanonicalMIMEHeaderKey k0 = c")
  case True
  then obtain k0 where k0: "k0 \<in> dom loc" "CanonicalMIMEHeaderKey k0 = c" by blast
  have u: "\<forall>k \<in> dom loc. CanonicalMIMEHeaderKey k = c \<longrightarrow> k = k0"
    using assms(3) k0 unfolding inj_on_def by blast
  have s: "set ks = dom loc" "distinct ks" "set ks' = dom loc" "distinct ks'"
    using assms(1,2) by (simp_all add: range_order_def)
  have "candidates ks loc c = vals loc k0"
    using s(2) k0 u unfolding s(1)[symmetric] by (rule candidates_single)
  moreover have "candidates ks' loc c = vals loc k0"
    using s(4) k0 u unfolding s(3)[symmetric] by (rule candidates_single)
  ultimately show ?thesis by simp
next
  case False
  have s: "set ks = dom loc" "set ks' = dom loc"
    using assms(1,2) by (simp_all add: range_order_def)
  have "candidates ks loc c = []"
    using False unfolding s(1)[symmetric] by (intro candidates_none) blast
  moreover have "candidates ks' loc c = []"
    using False unfolding s(2)[symmetric] by (intro candidates_none) blast
  ultimately show ?thesis by simp
qed

lemma candidates_canonical:
  assumes "range_order ks loc" and "\<forall>k \<in> dom loc. CanonicalMIMEHeaderKey k = k"
  shows "candidates ks loc c = vals loc c"
proof (cases "loc c")
  case None
  have s: "set ks = dom loc" using assms(1) by (simp add: range_order_def)
  have "\<forall>k \<in> set ks. CanonicalMIMEHeaderKey k \<noteq> c"
  proof
    fix k assume "k \<in> set ks"
    then have k: "k \<in> dom loc" using s by simp
    then have "CanonicalMIMEHeaderKey k = k" using assms(2) by blast
    moreover have "k \<noteq> c" using k None by blast
    ultimately show "CanonicalMIMEHeaderKey k \<noteq> c" by simp
  qed
  then have "candidates ks loc c = []" by (rule candidates_none)
  then show ?thesis using None by (simp add: vals_def)
next
  case (Some vs)
  have s: "set ks = dom loc" "distinct ks" using assms(1) by (simp_all add: range_order_def)
  have c: "c \<in> set ks" using Some s by blast
  have cc: "CanonicalMIMEHeaderKey c = c" using assms(2) Some by blast
  have u: "\<forall>k \<in> set ks. CanonicalMIMEHeaderKey k = c \<longrightarrow> k = c"
    using assms(2) s(1) by metis
  show ?thesis using s(2) c cc u by (rule candidates_single)
qed

lemma removed_keys_canonical:
  assumes "range_order ks h" and "\<forall>k \<in> dom h. CanonicalMIMEHeaderKey k = k"
  shows "removed_keys ks loc h = dom h - dom loc"
proof -
  have "\<And>k. k \<in> dom h - dom loc \<Longrightarrow> CanonicalMIMEHeaderKey k = k"
    using assms(2) by blast
  then have "CanonicalMIMEHeaderKey ` (dom h - dom loc) = dom h - dom loc"
    by (simp add: image_def) 
  then show ?thesis using removed_keys_range[OF assms(1)] by simp
qed


section \<open>What Flush does to the headers of the sink\<close>

lemma canon_X: "CanonicalMIMEHeaderKey ''X'' = ''X''"
  by code_simp

lemma canon_Y: "CanonicalMIMEHeaderKey ''Y'' = ''Y''"
  by code_simp

lemmas loop_defs =
  reconcile_def remove_deleted_def remove_step_def copy_new_def copy_step_def
  copy_values_def copy_value_def Values_def Del_def Add_def

lemma Flush_sink_map:
  assumes "\<not> closed rw" and "header rw \<noteq> sink_header w"
  shows "heap (fst (snd (Flush ks1 ks2 res (w, rw)))) (sink_header w) =
           reconcile ks1 ks2 (heap w (header rw)) (heap w (sink_header w))"
proof -
  obtain n e where res: "res = (n, e)" by (cases res)
  show ?thesis unfolding res Flush_open_wf[OF assms] by simp
qed

lemma reconcile_canonical:
  assumes "range_order ks1 S" and "range_order ks2 L"
    and "\<forall>k \<in> dom S. CanonicalMIMEHeaderKey k = k"
    and "\<forall>k \<in> dom L. CanonicalMIMEHeaderKey k = k"
  shows "reconcile ks1 ks2 L S k =
           (if L k = None then None else entry (S k) (append_new (vals S k) (vals L k)))"
proof -
  have rk: "removed_keys ks1 L S = dom S - dom L"
    using assms(1,3) by (rule removed_keys_canonical)
  have ca: "candidates ks2 L k = vals L k"
    using assms(2,4) by (rule candidates_canonical)
  show ?thesis
  proof (cases "L k")
    case None
    then have v: "vals L k = []" by (simp add: vals_def)
    have "remove_deleted ks1 L S k = None"
      using None by (cases "S k") (auto simp: remove_deleted_apply rk)
    then show ?thesis using None
      by (simp add: reconcile_apply ca v vals_def entry_def)
  next
    case (Some vs)
    then have "k \<notin> removed_keys ks1 L S" by (auto simp: rk)
    then have "remove_deleted ks1 L S k = S k" "vals (remove_deleted ks1 L S) k = vals S k"
      by (simp_all add: remove_deleted_apply vals_remove_deleted)
    then show ?thesis using Some by (simp add: reconcile_apply ca)
  qed
qed

text \<open>
  Claim C1, as the code has it. Take an open buffer whose map and the sink's map hold keys
  in canonical form only. After \<^verbatim>\<open>Flush\<close>, a key that the local map lacks is absent from
  the sink. Under a key of the local map the sink holds its former values, all of them and
  in their order, followed by the local values it lacked, each once. So the values of the
  sink under that key are those of the sink before together with the local ones; they are
  the local ones exactly when the sink's former values were all among them. No value of a
  key that stays is ever removed.
\<close>

theorem Flush_merges_headers:
  assumes "\<not> closed rw" and "header rw \<noteq> sink_header w"
    and "range_order ks1 (heap w (sink_header w))"
    and "range_order ks2 (heap w (header rw))"
    and "\<forall>k \<in> dom (heap w (sink_header w)). CanonicalMIMEHeaderKey k = k"
    and "\<forall>k \<in> dom (heap w (header rw)). CanonicalMIMEHeaderKey k = k"
  shows "(heap w (header rw) k = None \<longrightarrow>
            heap (fst (snd (Flush ks1 ks2 (n, None) (w, rw)))) (sink_header w) k = None) \<and>
         (heap w (header rw) k \<noteq> None \<longrightarrow>
            (\<exists>news.
               vals (heap (fst (snd (Flush ks1 ks2 (n, None) (w, rw)))) (sink_header w)) k =
                 vals (heap w (sink_header w)) k @ news \<and>
               distinct news \<and>
               set news = set (vals (heap w (header rw)) k) - set (vals (heap w (sink_header w)) k)) \<and>
            (heap (fst (snd (Flush ks1 ks2 (n, None) (w, rw)))) (sink_header w) k = None \<longleftrightarrow>
               heap w (sink_header w) k = None \<and> vals (heap w (header rw)) k = []) \<and>
            (set (vals (heap (fst (snd (Flush ks1 ks2 (n, None) (w, rw)))) (sink_header w)) k) =
               set (vals (heap w (header rw)) k) \<longleftrightarrow>
             set (vals (heap w (sink_header w)) k) \<subseteq> set (vals (heap w (header rw)) k)))"
proof -
  let ?S = "heap w (sink_header w)" and ?L = "heap w (header rw)"
  let ?F = "heap (fst (snd (Flush ks1 ks2 (n, None) (w, rw)))) (sink_header w)"
  have F: "?F k = (if ?L k = None then None else entry (?S k) (append_new (vals ?S k) (vals ?L k)))"
    unfolding Flush_sink_map[OF assms(1,2)] using assms(3-6) by (rule reconcile_canonical)
  have absent: "?L k = None \<longrightarrow> ?F k = None" using F by simp
  have present: "?L k \<noteq> None \<longrightarrow>
      (\<exists>news. vals ?F k = vals ?S k @ news \<and> distinct news \<and>
          set news = set (vals ?L k) - set (vals ?S k)) \<and>
      (?F k = None \<longleftrightarrow> ?S k = None \<and> vals ?L k = []) \<and>
      (set (vals ?F k) = set (vals ?L k) \<longleftrightarrow> set (vals ?S k) \<subseteq> set (vals ?L k))"
  proof
    assume nn: "?L k \<noteq> None"
    have Fk: "?F k = entry (?S k) (append_new (vals ?S k) (vals ?L k))"
      by (simp only: F if_not_P[OF nn])
    have vF: "vals ?F k = append_new (vals ?S k) (vals ?L k)"
      unfolding vals_def[of ?F] Fk by (rule vals_entry)
    have a: "\<exists>news. vals ?F k = vals ?S k @ news \<and> distinct news \<and>
          set news = set (vals ?L k) - set (vals ?S k)"
      unfolding vF by (rule append_new_split)
    have b: "?F k = None \<longleftrightarrow> ?S k = None \<and> vals ?L k = []"
      unfolding Fk by (cases "?S k") (simp_all add: entry_def append_new_Nil_iff vals_def)
    have c: "set (vals ?F k) = set (vals ?L k) \<longleftrightarrow> set (vals ?S k) \<subseteq> set (vals ?L k)"
      unfolding vF set_append_new by blast
    show "(\<exists>news. vals ?F k = vals ?S k @ news \<and> distinct news \<and>
          set news = set (vals ?L k) - set (vals ?S k)) \<and>
      (?F k = None \<longleftrightarrow> ?S k = None \<and> vals ?L k = []) \<and>
      (set (vals ?F k) = set (vals ?L k) \<longleftrightarrow> set (vals ?S k) \<subseteq> set (vals ?L k))"
      using a b c by blast
  qed
  show ?thesis using absent present by blast
qed

text \<open>
  In the example the sink holds X: a, b and Y: c, and the local map holds X: b, d, d. After
  \<^verbatim>\<open>Flush\<close> the key Y is gone and X holds a, b, d.
\<close>

theorem Flush_merges_headers_witness:
  "\<not> closed open_buffer \<and> header open_buffer \<noteq> sink_header merge_world \<and>
   range_order [''Y'', ''X''] (heap merge_world (sink_header merge_world)) \<and>
   range_order [''X''] (heap merge_world (header open_buffer)) \<and>
   dom (heap merge_world (sink_header merge_world)) = {''X'', ''Y''} \<and>
   dom (heap merge_world (header open_buffer)) = {''X''} \<and>
   CanonicalMIMEHeaderKey ''X'' = ''X'' \<and> CanonicalMIMEHeaderKey ''Y'' = ''Y'' \<and>
   heap merge_world (header open_buffer) ''Y'' = None \<and>
   heap (fst (snd (Flush [''Y'', ''X''] [''X''] (0, None) (merge_world, open_buffer))))
     (sink_header merge_world) ''Y'' = None \<and>
   heap (fst (snd (Flush [''Y'', ''X''] [''X''] (0, None) (merge_world, open_buffer))))
     (sink_header merge_world) ''X'' = Some [''a'', ''b'', ''d'']"
proof -
  have h1: "\<not> closed open_buffer" by (simp add: open_buffer_def)
  have h2: "header open_buffer \<noteq> sink_header merge_world"
    by (simp add: open_buffer_def merge_world_def)
  have h3: "range_order [''Y'', ''X''] (heap merge_world (sink_header merge_world))"
    by (auto simp: range_order_def merge_world_def)
  have h4: "range_order [''X''] (heap merge_world (header open_buffer))"
    by (auto simp: range_order_def merge_world_def open_buffer_def)
  have h5: "\<forall>k \<in> dom (heap merge_world (sink_header merge_world)). CanonicalMIMEHeaderKey k = k"
    by (simp add: merge_world_def canon_X canon_Y)
  have h6: "\<forall>k \<in> dom (heap merge_world (header open_buffer)). CanonicalMIMEHeaderKey k = k"
    by (simp add: merge_world_def open_buffer_def canon_X)
  have d1: "dom (heap merge_world (sink_header merge_world)) = {''X'', ''Y''}"
    by (auto simp: merge_world_def)
  have d2: "dom (heap merge_world (header open_buffer)) = {''X''}"
    by (auto simp: merge_world_def open_buffer_def)
  have y: "heap merge_world (header open_buffer) ''Y'' = None"
    by (simp add: merge_world_def open_buffer_def)
  have x: "heap (fst (snd (Flush [''Y'', ''X''] [''X''] (0, None) (merge_world, open_buffer))))
     (sink_header merge_world) ''X'' = Some [''a'', ''b'', ''d'']"
    by (simp add: Flush_def Let_def update_sink_header_def sink_receive_def merge_world_def
        open_buffer_def loop_defs canon_X canon_Y)
  show ?thesis
    using h1 h2 h3 h4 d1 d2 canon_X canon_Y y x
      Flush_merges_headers[OF h1 h2 h3 h4 h5 h6, of "''Y''" 0]
    by blast
qed

text \<open>
  Claim C1 as it is stated fails. The sink holds X: a, b and the local map holds X: a, so
  the local map is not a superset of the sink's values. After a successful \<^verbatim>\<open>Flush\<close> the
  sink still holds X: a, b: the value b is not purged and the two sides are not set-equal.
\<close>

theorem Flush_no_purge_counterexample:
  "range_order [''X''] (heap purge_world (sink_header purge_world)) \<and>
   range_order [''X''] (heap purge_world (header open_buffer)) \<and>
   fst (Flush [''X''] [''X''] (0, None) (purge_world, open_buffer)) = (0, None) \<and>
   heap purge_world (header open_buffer) ''X'' = Some [''a''] \<and>
   heap (fst (snd (Flush [''X''] [''X''] (0, None) (purge_world, open_buffer))))
     (sink_header purge_world) ''X'' = Some [''a'', ''b''] \<and>
   set (vals (heap (fst (snd (Flush [''X''] [''X''] (0, None) (purge_world, open_buffer))))
     (sink_header purge_world)) ''X'') \<noteq> set (vals (heap purge_world (header open_buffer)) ''X'')"
proof -
  have r1: "range_order [''X''] (heap purge_world (sink_header purge_world))"
    by (auto simp: range_order_def purge_world_def)
  have r2: "range_order [''X''] (heap purge_world (header open_buffer))"
    by (auto simp: range_order_def purge_world_def open_buffer_def)
  have l: "heap purge_world (header open_buffer) ''X'' = Some [''a'']"
    by (simp add: purge_world_def open_buffer_def)
  have f: "heap (fst (snd (Flush [''X''] [''X''] (0, None) (purge_world, open_buffer))))
     (sink_header purge_world) ''X'' = Some [''a'', ''b'']"
    by (simp add: Flush_def Let_def update_sink_header_def sink_receive_def purge_world_def
        open_buffer_def loop_defs canon_X)
  have res: "fst (Flush [''X''] [''X''] (0, None) (purge_world, open_buffer)) = (0, None)"
    by (simp add: Flush_def Let_def open_buffer_def)
  have ne: "set (vals (heap (fst (snd (Flush [''X''] [''X''] (0, None) (purge_world, open_buffer))))
     (sink_header purge_world)) ''X'') \<noteq> set (vals (heap purge_world (header open_buffer)) ''X'')"
    unfolding vals_def f l by simp
  show ?thesis using r1 r2 l f res ne by blast
qed


section \<open>Running the reconciliation twice\<close>

lemma candidates_nonempty:
  assumes "candidates ks loc c \<noteq> []"
  shows "\<exists>k \<in> set ks. CanonicalMIMEHeaderKey k = c"
proof (rule ccontr)
  assume "\<not> (\<exists>k \<in> set ks. CanonicalMIMEHeaderKey k = c)"
  then have "\<forall>k \<in> set ks. CanonicalMIMEHeaderKey k \<noteq> c" by blast
  then have "candidates ks loc c = []" by (rule candidates_none)
  then show False using assms by simp
qed

lemma removed_keys_iff:
  "c \<in> removed_keys ks loc h \<longleftrightarrow>
     (\<exists>k \<in> set ks. h k \<noteq> None \<and> loc k = None \<and> CanonicalMIMEHeaderKey k = c)"
  unfolding removed_keys_def doomed_def by auto

lemma second_removal_hits_rebuilt_only:
  assumes "range_order ks1 S" and "c \<in> removed_keys ks1' L (reconcile ks1 ks2 L S)"
  shows "remove_deleted ks1 L S c = None"
proof (rule ccontr)
  assume live: "remove_deleted ks1 L S c \<noteq> None"
  have s: "set ks1 = dom S" using assms(1) by (simp add: range_order_def)
  have cnr: "c \<notin> removed_keys ks1 L S" and Sc: "S c \<noteq> None"
    using live by (simp_all add: remove_deleted_apply split: if_splits)
  obtain k where k: "reconcile ks1 ks2 L S k \<noteq> None" "L k = None" "CanonicalMIMEHeaderKey k = c"
    using assms(2) unfolding removed_keys_iff by blast
  have "remove_deleted ks1 L S k \<noteq> None \<or> candidates ks2 L k \<noteq> []"
  proof (rule ccontr)
    assume "\<not> (remove_deleted ks1 L S k \<noteq> None \<or> candidates ks2 L k \<noteq> [])"
    then have "remove_deleted ks1 L S k = None" "candidates ks2 L k = []" by simp_all
    then have "reconcile ks1 ks2 L S k = None"
      by (simp add: reconcile_apply vals_def entry_def)
    then show False using k(1) by simp
  qed
  then show False
  proof
    assume "remove_deleted ks1 L S k \<noteq> None"
    then have "S k \<noteq> None" by (simp add: remove_deleted_apply split: if_splits)
    then have "k \<in> set ks1" using s by blast
    then have "c \<in> removed_keys ks1 L S"
      unfolding removed_keys_iff using \<open>S k \<noteq> None\<close> k(2,3) by blast
    then show False using cnr by simp
  next
    assume "candidates ks2 L k \<noteq> []"
    then obtain k' where "CanonicalMIMEHeaderKey k' = k" using candidates_nonempty by blast
    then have "CanonicalMIMEHeaderKey k = k" using canon_idem[of k'] by simp
    then have ck: "c = k" using k(3) by simp
    have c1: "c \<in> set ks1" using Sc s by blast
    have c2: "L c = None" using k(2) ck by simp
    have c3: "CanonicalMIMEHeaderKey c = c" using k(3) ck by simp
    have "c \<in> removed_keys ks1 L S"
      unfolding removed_keys_iff using c1 Sc c2 c3 by blast
    then show False using cnr by simp
  qed
qed

lemma reconcile_rebuilt:
  assumes "range_order ks1 S" and "c \<in> removed_keys ks1' L (reconcile ks1 ks2 L S)"
  shows "reconcile ks1 ks2 L S c = entry None (append_new [] (candidates ks2 L c))"
proof -
  have n: "remove_deleted ks1 L S c = None"
    using assms by (rule second_removal_hits_rebuilt_only)
  then have v: "vals (remove_deleted ks1 L S) c = []" by (simp add: vals_def)
  show ?thesis unfolding reconcile_apply n v by (rule refl)
qed

lemma reconcile_twice:
  assumes "set (candidates ks2' L c) = set (candidates ks2 L c)"
  shows "reconcile ks1' ks2' L (reconcile ks1 ks2 L S) c =
     (if c \<in> removed_keys ks1' L (reconcile ks1 ks2 L S)
      then entry None (append_new [] (candidates ks2' L c))
      else reconcile ks1 ks2 L S c)"
proof (cases "c \<in> removed_keys ks1' L (reconcile ks1 ks2 L S)")
  case True
  then have n: "remove_deleted ks1' L (reconcile ks1 ks2 L S) c = None"
    by (simp add: remove_deleted_apply)
  then have v: "vals (remove_deleted ks1' L (reconcile ks1 ks2 L S)) c = []"
    by (simp add: vals_def)
  show ?thesis unfolding reconcile_apply[of ks1' ks2'] n v if_P[OF True] by (rule refl)
next
  case False
  let ?R = "reconcile ks1 ks2 L S"
  have n: "remove_deleted ks1' L ?R c = ?R c"
    using False by (simp add: remove_deleted_apply)
  then have v: "vals (remove_deleted ks1' L ?R) c = vals ?R c"
    by (simp add: vals_def)
  have "set (candidates ks2' L c) \<subseteq> set (vals ?R c)"
    unfolding assms vals_reconcile set_append_new by blast
  then have "append_new (vals ?R c) (candidates ks2' L c) = vals ?R c"
    by (rule append_new_subset)
  then have "reconcile ks1' ks2' L ?R c = entry (?R c) (vals ?R c)"
    unfolding reconcile_apply[of ks1' ks2' L ?R] n v by simp
  then show ?thesis unfolding if_not_P[OF False] by (simp add: entry_self)
qed

lemma distinct_append_new_Nil: "distinct (append_new [] vs) \<and> set (append_new [] vs) = set vs"
proof -
  obtain news where "append_new [] vs = [] @ news" "distinct news" "set news = set vs - set []"
    using append_new_split[of "[]" vs] by blast
  then show ?thesis by simp
qed

lemma set_candidates_order:
  assumes "range_order ks loc" and "range_order ks' loc"
  shows "set (candidates ks' loc c) = set (candidates ks loc c)"
proof -
  have "set ks' = set ks" using assms by (simp add: range_order_def)
  then show ?thesis by (simp add: set_candidates)
qed

lemma reconcile_twice_exact:
  assumes "range_order ks1 S" and "candidates ks2' L c = candidates ks2 L c"
  shows "reconcile ks1' ks2' L (reconcile ks1 ks2 L S) c = reconcile ks1 ks2 L S c"
proof (cases "c \<in> removed_keys ks1' L (reconcile ks1 ks2 L S)")
  case True
  have e: "set (candidates ks2' L c) = set (candidates ks2 L c)" using assms(2) by simp
  show ?thesis
    unfolding reconcile_twice[OF e] if_P[OF True] reconcile_rebuilt[OF assms(1) True] assms(2)
    by (rule refl)
next
  case False
  have e: "set (candidates ks2' L c) = set (candidates ks2 L c)" using assms(2) by simp
  show ?thesis unfolding reconcile_twice[OF e] if_not_P[OF False] by (rule refl)
qed

lemma reconcile_twice_same_values:
  assumes "range_order ks1 S" and "set (candidates ks2' L c) = set (candidates ks2 L c)"
  shows "(reconcile ks1' ks2' L (reconcile ks1 ks2 L S) c = None \<longleftrightarrow>
            reconcile ks1 ks2 L S c = None) \<and>
         mset (vals (reconcile ks1' ks2' L (reconcile ks1 ks2 L S)) c) =
            mset (vals (reconcile ks1 ks2 L S) c)"
proof (cases "c \<in> removed_keys ks1' L (reconcile ks1 ks2 L S)")
  case False
  show ?thesis unfolding vals_def reconcile_twice[OF assms(2)] if_not_P[OF False] by simp
next
  case True
  let ?a = "append_new [] (candidates ks2' L c)" and ?b = "append_new [] (candidates ks2 L c)"
  have R2: "reconcile ks1' ks2' L (reconcile ks1 ks2 L S) c = entry None ?a"
    unfolding reconcile_twice[OF assms(2)] if_P[OF True] by (rule refl)
  have R: "reconcile ks1 ks2 L S c = entry None ?b"
    using assms(1) True by (rule reconcile_rebuilt)
  have da: "distinct ?a" "set ?a = set (candidates ks2' L c)"
    using distinct_append_new_Nil[of "candidates ks2' L c"] by simp_all
  have db: "distinct ?b" "set ?b = set (candidates ks2 L c)"
    using distinct_append_new_Nil[of "candidates ks2 L c"] by simp_all
  have se: "set ?a = set ?b" using da(2) db(2) assms(2) by simp
  have m: "mset ?a = mset ?b"
    using da(1) db(1) se by (simp add: set_eq_iff_mset_eq_distinct)
  have e: "?a = [] \<longleftrightarrow> ?b = []" using se by (metis set_empty)
  have va: "(case entry None ?a of None \<Rightarrow> [] | Some vs \<Rightarrow> vs) = ?a" by (rule vals_entry)
  have vb: "(case entry None ?b of None \<Rightarrow> [] | Some vs \<Rightarrow> vs) = ?b" by (rule vals_entry)
  show ?thesis unfolding vals_def R2 R va vb using m e by (simp add: entry_def)
qed


section \<open>How keys are compared\<close>

lemma canon_x: "CanonicalMIMEHeaderKey ''x'' = ''X''"
  by code_simp

text \<open>
  Claim C6, as the code has it. Whether a key of the sink is present in the local map is
  decided by the index expression \<^verbatim>\<open>rw.header[key]\<close>, an exact comparison of the
  spelling: when the keys of the sink are in canonical form, the first loop leaves the sink
  with exactly the entries whose very key is a key of the local map, whatever other
  spellings the local map holds. Only the second loop goes through the canonical form: a
  value of a local key is looked up among the sink's values for the canonical form of that
  key, by exact comparison of the values, and is appended there when it is missing.
\<close>

theorem key_comparison:
  assumes "range_order ks S" and "\<forall>k \<in> dom S. CanonicalMIMEHeaderKey k = k"
  shows "remove_deleted ks L S = S |` dom L \<and>
         copy_value key v h =
           (if v \<in> set (vals h (CanonicalMIMEHeaderKey key)) then h
            else h(CanonicalMIMEHeaderKey key \<mapsto> vals h (CanonicalMIMEHeaderKey key) @ [v]))"
proof -
  have rk: "removed_keys ks L S = dom S - dom L"
    using assms by (rule removed_keys_canonical)
  have a: "remove_deleted ks L S = S |` dom L"
  proof (rule ext)
    fix c
    show "remove_deleted ks L S c = (S |` dom L) c"
      by (cases "S c"; cases "L c") (auto simp: remove_deleted_apply rk restrict_map_def)
  qed
  have b: "copy_value key v h =
           (if v \<in> set (vals h (CanonicalMIMEHeaderKey key)) then h
            else h(CanonicalMIMEHeaderKey key \<mapsto> vals h (CanonicalMIMEHeaderKey key) @ [v]))"
    by (cases "h (CanonicalMIMEHeaderKey key)")
       (simp_all add: copy_value_def found_iff Values_def Add_def vals_def)
  show ?thesis using a b by (rule conjI)
qed

text \<open>
  In the example the local map holds the key X and the sink holds X and Y: the first loop
  leaves X alone and removes Y.
\<close>

theorem key_comparison_witness:
  "range_order [''Y'', ''X''] (heap merge_world 0) \<and>
   dom (heap merge_world 0) = {''X'', ''Y''} \<and>
   CanonicalMIMEHeaderKey ''X'' = ''X'' \<and> CanonicalMIMEHeaderKey ''Y'' = ''Y'' \<and>
   remove_deleted [''Y'', ''X''] (heap merge_world 1) (heap merge_world 0) =
     heap merge_world 0 |` dom (heap merge_world 1) \<and>
   remove_deleted [''Y'', ''X''] (heap merge_world 1) (heap merge_world 0) ''Y'' = None \<and>
   remove_deleted [''Y'', ''X''] (heap merge_world 1) (heap merge_world 0) ''X'' =
     Some [''a'', ''b'']"
proof -
  have h1: "range_order [''Y'', ''X''] (heap merge_world 0)"
    by (auto simp: range_order_def merge_world_def)
  have d: "dom (heap merge_world 0) = {''X'', ''Y''}"
    by (auto simp: merge_world_def)
  have h2: "\<forall>k \<in> dom (heap merge_world 0). CanonicalMIMEHeaderKey k = k"
    unfolding d by (simp add: canon_X canon_Y)
  have r: "(heap merge_world 0 |` dom (heap merge_world 1)) ''Y'' = None"
      "(heap merge_world 0 |` dom (heap merge_world 1)) ''X'' = Some [''a'', ''b'']"
    by (simp_all add: merge_world_def restrict_map_def)
  show ?thesis
    using h1 d canon_X canon_Y r key_comparison[OF h1 h2, of "heap merge_world 1"]
    by simp
qed

text \<open>
  Claim C6 as it is stated fails. The sink holds X: a and the local map holds x: b, a case
  variant of the same key. The first loop removes X from the sink all the same, and after
  \<^verbatim>\<open>Flush\<close> the sink holds X: b, the value a being lost.
\<close>

theorem case_variant_counterexample:
  "range_order [''X''] (heap variant_world (sink_header variant_world)) \<and>
   range_order [''x''] (heap variant_world (header open_buffer)) \<and>
   heap variant_world (sink_header variant_world) ''X'' = Some [''a''] \<and>
   heap variant_world (header open_buffer) ''x'' = Some [''b''] \<and>
   CanonicalMIMEHeaderKey ''x'' = CanonicalMIMEHeaderKey ''X'' \<and>
   remove_deleted [''X''] (heap variant_world (header open_buffer))
     (heap variant_world (sink_header variant_world)) ''X'' = None \<and>
   sink_map (snd (Flush [''X''] [''x''] (0, None) (variant_world, open_buffer))) ''X'' =
     Some [''b'']"
proof -
  have r1: "range_order [''X''] (heap variant_world (sink_header variant_world))"
    by (auto simp: range_order_def variant_world_def)
  have r2: "range_order [''x''] (heap variant_world (header open_buffer))"
    by (auto simp: range_order_def variant_world_def open_buffer_def)
  have s: "heap variant_world (sink_header variant_world) ''X'' = Some [''a'']"
    by (simp add: variant_world_def)
  have l: "heap variant_world (header open_buffer) ''x'' = Some [''b'']"
    by (simp add: variant_world_def open_buffer_def)
  have c: "CanonicalMIMEHeaderKey ''x'' = CanonicalMIMEHeaderKey ''X''"
    by (simp add: canon_x canon_X)
  have d: "remove_deleted [''X''] (heap variant_world (header open_buffer))
     (heap variant_world (sink_header variant_world)) ''X'' = None"
    by (simp add: variant_world_def open_buffer_def loop_defs canon_X)
  have f: "sink_map (snd (Flush [''X''] [''x''] (0, None) (variant_world, open_buffer))) ''X'' =
     Some [''b'']"
    by (simp add: sink_map_def Flush_def Let_def update_sink_header_def sink_receive_def
        variant_world_def open_buffer_def loop_defs canon_X canon_x)
  show ?thesis using r1 r2 s l c d f by blast
qed


lemma canon_x_a: "CanonicalMIMEHeaderKey ''x-a'' = ''X-A''"
  by code_simp

lemma canon_X_a: "CanonicalMIMEHeaderKey ''X-a'' = ''X-A''"
  by code_simp

lemma canon_X_A: "CanonicalMIMEHeaderKey ''X-A'' = ''X-A''"
  by code_simp

lemma Flush_sink_header: "sink_header (fst (snd (Flush ks1 ks2 res (w, rw)))) = sink_header w"
proof (cases "closed rw")
  case True
  then show ?thesis by (simp add: Flush_closed)
next
  case False
  obtain n e where res: "res = (n, e)" by (cases res)
  show ?thesis unfolding res Flush_open[OF False] by simp
qed

lemma sink_map_Flush:
  assumes "\<not> closed rw" and "header rw \<noteq> sink_header w"
  shows "sink_map (snd (Flush ks1 ks2 res (w, rw))) =
           reconcile ks1 ks2 (heap w (header rw)) (heap w (sink_header w))"
  unfolding sink_map_def Flush_sink_header using assms by (rule Flush_sink_map)

lemma Flush_twice_sink_map:
  assumes "\<not> closed rw" and "header rw \<noteq> sink_header w"
  shows "sink_map (snd (Flush ks1' ks2' res (snd (Flush ks1 ks2 (n, Some err) (w, rw))))) =
           reconcile ks1' ks2' (heap w (header rw))
             (reconcile ks1 ks2 (heap w (header rw)) (heap w (sink_header w)))"
proof -
  let ?R = "reconcile ks1 ks2 (heap w (header rw)) (heap w (sink_header w))"
  let ?w1 = "w\<lparr>heap := (heap w)(sink_header w := ?R),
                sink_calls := sink_calls w @
                   (if statusCode rw \<noteq> 0 then [SinkWriteHeader (statusCode rw)] else []) @
                   [SinkWrite (body rw)]\<rparr>"
  have f1: "snd (Flush ks1 ks2 (n, Some err) (w, rw)) = (?w1, rw)"
    unfolding Flush_open_wf[OF assms] using assms(1) by simp
  have ne: "header rw \<noteq> sink_header ?w1" using assms(2) by simp
  have "sink_map (snd (Flush ks1' ks2' res (?w1, rw))) =
      reconcile ks1' ks2' (heap ?w1 (header rw)) (heap ?w1 (sink_header ?w1))"
    using assms(1) ne by (rule sink_map_Flush)
  then show ?thesis unfolding f1 using assms(2) by simp
qed

text \<open>
  Claim C9, as the code has it. Let a first \<^verbatim>\<open>Flush\<close> fail in the sink's \<^verbatim>\<open>Write\<close>, and
  let \<^verbatim>\<open>Flush\<close> be called again at once. The second run neither adds nor removes a key
  of the sink and neither duplicates nor drops a value: under every key the sink holds the
  same values, each as often as before. When no two keys of the local map have the same
  canonical form, the header map of the sink is exactly what it was. The orders in which
  the two runs visit the keys are independent, as they are in Go.
\<close>

theorem Flush_again_after_error:
  assumes "\<not> closed rw" and "header rw \<noteq> sink_header w"
    and "range_order ks1 (heap w (sink_header w))"
    and "range_order ks2 (heap w (header rw))"
    and "range_order ks2' (heap w (header rw))"
  shows "(sink_map (snd (Flush ks1' ks2' res (snd (Flush ks1 ks2 (n, Some err) (w, rw))))) c = None
            \<longleftrightarrow> sink_map (snd (Flush ks1 ks2 (n, Some err) (w, rw))) c = None) \<and>
         mset (vals (sink_map (snd (Flush ks1' ks2' res
                  (snd (Flush ks1 ks2 (n, Some err) (w, rw)))))) c) =
           mset (vals (sink_map (snd (Flush ks1 ks2 (n, Some err) (w, rw)))) c) \<and>
         (inj_on CanonicalMIMEHeaderKey (dom (heap w (header rw))) \<longrightarrow>
            sink_map (snd (Flush ks1' ks2' res (snd (Flush ks1 ks2 (n, Some err) (w, rw))))) =
              sink_map (snd (Flush ks1 ks2 (n, Some err) (w, rw))))"
proof -
  let ?S = "heap w (sink_header w)" and ?L = "heap w (header rw)"
  have s1: "sink_map (snd (Flush ks1 ks2 (n, Some err) (w, rw))) = reconcile ks1 ks2 ?L ?S"
    using assms(1,2) by (rule sink_map_Flush)
  have s2: "sink_map (snd (Flush ks1' ks2' res (snd (Flush ks1 ks2 (n, Some err) (w, rw))))) =
      reconcile ks1' ks2' ?L (reconcile ks1 ks2 ?L ?S)"
    using assms(1,2) by (rule Flush_twice_sink_map)
  have se: "set (candidates ks2' ?L c) = set (candidates ks2 ?L c)"
    using assms(4,5) by (rule set_candidates_order)
  have same: "(reconcile ks1' ks2' ?L (reconcile ks1 ks2 ?L ?S) c = None \<longleftrightarrow>
            reconcile ks1 ks2 ?L ?S c = None) \<and>
         mset (vals (reconcile ks1' ks2' ?L (reconcile ks1 ks2 ?L ?S)) c) =
            mset (vals (reconcile ks1 ks2 ?L ?S) c)"
    using assms(3) se by (rule reconcile_twice_same_values)
  have exact: "inj_on CanonicalMIMEHeaderKey (dom ?L) \<longrightarrow>
      reconcile ks1' ks2' ?L (reconcile ks1 ks2 ?L ?S) = reconcile ks1 ks2 ?L ?S"
  proof
    assume inj: "inj_on CanonicalMIMEHeaderKey (dom ?L)"
    show "reconcile ks1' ks2' ?L (reconcile ks1 ks2 ?L ?S) = reconcile ks1 ks2 ?L ?S"
    proof (rule ext)
      fix c'
      have "candidates ks2' ?L c' = candidates ks2 ?L c'"
        using assms(5,4) inj by (rule candidates_order)
      with assms(3)
      show "reconcile ks1' ks2' ?L (reconcile ks1 ks2 ?L ?S) c' = reconcile ks1 ks2 ?L ?S c'"
        by (rule reconcile_twice_exact)
    qed
  qed
  show ?thesis unfolding s1 s2 using same exact by blast
qed

text \<open>
  In the example the first run removes Y and appends d under X; the second run, which
  finds only X in the sink, changes nothing.
\<close>

theorem Flush_again_after_error_witness:
  "\<not> closed open_buffer \<and> header open_buffer \<noteq> sink_header merge_world \<and>
   range_order [''Y'', ''X''] (heap merge_world (sink_header merge_world)) \<and>
   range_order [''X''] (heap merge_world (header open_buffer)) \<and>
   inj_on CanonicalMIMEHeaderKey (dom (heap merge_world (header open_buffer))) \<and>
   sink_map (snd (Flush [''Y'', ''X''] [''X''] (0, Some (ErrOther ''broken pipe''))
       (merge_world, open_buffer))) ''X'' = Some [''a'', ''b'', ''d''] \<and>
   sink_map (snd (Flush [''X''] [''X''] (3, None)
       (snd (Flush [''Y'', ''X''] [''X''] (0, Some (ErrOther ''broken pipe''))
          (merge_world, open_buffer))))) =
     sink_map (snd (Flush [''Y'', ''X''] [''X''] (0, Some (ErrOther ''broken pipe''))
       (merge_world, open_buffer)))"
proof -
  have h1: "\<not> closed open_buffer" by (simp add: open_buffer_def)
  have h2: "header open_buffer \<noteq> sink_header merge_world"
    by (simp add: open_buffer_def merge_world_def)
  have h3: "range_order [''Y'', ''X''] (heap merge_world (sink_header merge_world))"
    by (auto simp: range_order_def merge_world_def)
  have h4: "range_order [''X''] (heap merge_world (header open_buffer))"
    by (auto simp: range_order_def merge_world_def open_buffer_def)
  have d: "dom (heap merge_world (header open_buffer)) = {''X''}"
    by (auto simp: merge_world_def open_buffer_def)
  have i: "inj_on CanonicalMIMEHeaderKey (dom (heap merge_world (header open_buffer)))"
    unfolding d by simp
  have x: "sink_map (snd (Flush [''Y'', ''X''] [''X''] (0, Some (ErrOther ''broken pipe''))
       (merge_world, open_buffer))) ''X'' = Some [''a'', ''b'', ''d'']"
    by (simp add: sink_map_def Flush_def Let_def update_sink_header_def sink_receive_def
        merge_world_def open_buffer_def loop_defs canon_X canon_Y)
  show ?thesis
    using h1 h2 h3 h4 i x
      Flush_again_after_error[OF h1 h2 h3 h4 h4, of "[''X'']" "(3, None)" 0
        "ErrOther ''broken pipe''" "''X''"]
    by blast
qed

text \<open>
  Claim C9 as it is stated fails. The local map holds two spellings of one key, x-a: 1 and
  X-a: 2, and the sink holds nothing. A first \<^verbatim>\<open>Flush\<close> that visits x-a first leaves the
  sink with X-A: 1, 2 and fails in the sink's \<^verbatim>\<open>Write\<close>. A second \<^verbatim>\<open>Flush\<close> finds that
  X-A is no key of the local map, removes it, and, visiting X-a first this time, leaves the
  sink with X-A: 2, 1.
\<close>

theorem Flush_again_reorders_counterexample:
  "range_order [] (heap clash_world (sink_header clash_world)) \<and>
   range_order [''x-a'', ''X-a''] (heap clash_world (header open_buffer)) \<and>
   range_order [''X-a'', ''x-a''] (heap clash_world (header open_buffer)) \<and>
   fst (Flush [] [''x-a'', ''X-a''] (0, Some (ErrOther ''broken pipe''))
       (clash_world, open_buffer)) = (0, Some (ErrOther ''broken pipe'')) \<and>
   range_order [''X-A''] (sink_map (snd (Flush [] [''x-a'', ''X-a'']
       (0, Some (ErrOther ''broken pipe'')) (clash_world, open_buffer)))) \<and>
   sink_map (snd (Flush [] [''x-a'', ''X-a''] (0, Some (ErrOther ''broken pipe''))
       (clash_world, open_buffer))) ''X-A'' = Some [''1'', ''2''] \<and>
   sink_map (snd (Flush [''X-A''] [''X-a'', ''x-a''] (2, None)
       (snd (Flush [] [''x-a'', ''X-a''] (0, Some (ErrOther ''broken pipe''))
          (clash_world, open_buffer))))) ''X-A'' = Some [''2'', ''1'']"
proof -
  have o: "\<not> closed open_buffer" by (simp add: open_buffer_def)
  have ne: "header open_buffer \<noteq> sink_header clash_world"
    by (simp add: open_buffer_def clash_world_def)
  have L: "heap clash_world (header open_buffer) = [''x-a'' \<mapsto> [''1''], ''X-a'' \<mapsto> [''2'']]"
    by (simp add: open_buffer_def clash_world_def)
  have S: "heap clash_world (sink_header clash_world) = Map.empty"
    by (simp add: clash_world_def)
  have r1: "range_order [] (heap clash_world (sink_header clash_world))"
    unfolding S by (simp add: range_order_def)
  have r2: "range_order [''x-a'', ''X-a''] (heap clash_world (header open_buffer))"
    unfolding L by (auto simp: range_order_def)
  have r3: "range_order [''X-a'', ''x-a''] (heap clash_world (header open_buffer))"
    unfolding L by (auto simp: range_order_def)
  have res: "fst (Flush [] [''x-a'', ''X-a''] (0, Some (ErrOther ''broken pipe''))
       (clash_world, open_buffer)) = (0, Some (ErrOther ''broken pipe''))"
    by (simp add: Flush_def Let_def open_buffer_def)
  have R: "reconcile [] [''x-a'', ''X-a''] [''x-a'' \<mapsto> [''1''], ''X-a'' \<mapsto> [''2'']] Map.empty =
      [''X-A'' \<mapsto> [''1'', ''2'']]"
    by (simp add: loop_defs canon_x_a canon_X_a)
  have m1: "sink_map (snd (Flush [] [''x-a'', ''X-a''] (0, Some (ErrOther ''broken pipe''))
       (clash_world, open_buffer))) = [''X-A'' \<mapsto> [''1'', ''2'']]"
    unfolding sink_map_Flush[OF o ne] L S by (rule R)
  have r4: "range_order [''X-A''] (sink_map (snd (Flush [] [''x-a'', ''X-a'']
       (0, Some (ErrOther ''broken pipe'')) (clash_world, open_buffer))))"
    unfolding m1 by (simp add: range_order_def)
  have R2: "reconcile [''X-A''] [''X-a'', ''x-a''] [''x-a'' \<mapsto> [''1''], ''X-a'' \<mapsto> [''2'']]
      [''X-A'' \<mapsto> [''1'', ''2'']] ''X-A'' = Some [''2'', ''1'']"
    by (simp add: loop_defs canon_x_a canon_X_a canon_X_A)
  have m2: "sink_map (snd (Flush [''X-A''] [''X-a'', ''x-a''] (2, None)
       (snd (Flush [] [''x-a'', ''X-a''] (0, Some (ErrOther ''broken pipe''))
          (clash_world, open_buffer))))) ''X-A'' = Some [''2'', ''1'']"
    unfolding Flush_twice_sink_map[OF o ne] L S R by (rule R2)
  show ?thesis using r1 r2 r3 res r4 m1 m2 by simp
qed

end
